theory Spec2Isabelle
  imports Complex_Main "HOL-Library.Word"
begin

section \<open>Wipe patterns (core/patterns.py)\<close>

type_synonym byte = "8 word"

datatype WipePattern =
  ZERO_FILL | ONE_FILL | RANDOM | DOD_3_PASS | DOD_7_PASS | GUTMANN | NIST_CLEAR | NIST_PURGE

text \<open>
  \<open>secrets.token_bytes(n)\<close> is nondeterministic. The model takes an entropy source
  \<open>ent\<close>: the call made for the \<open>i\<close>-th yield of a generator returns the \<open>n\<close> bytes
  \<open>ent i 0 .. ent i (n - 1)\<close>.
\<close>

definition token_bytes :: "(nat \<Rightarrow> nat \<Rightarrow> byte) \<Rightarrow> nat \<Rightarrow> nat \<Rightarrow> byte list" where
  "token_bytes ent i n = map (ent i) [0..<n]"

text \<open>
  A Python generator is modelled by the function from the index \<open>i\<close> of a \<open>next\<close> call
  (from 0) to what that call gives: \<open>Some block\<close> for a yield, \<open>None\<close> for StopIteration.
\<close>

definition zero_fill :: "nat \<Rightarrow> nat \<Rightarrow> byte list option" where
  "zero_fill block_size i = Some (replicate block_size 0x00)"

definition one_fill :: "nat \<Rightarrow> nat \<Rightarrow> byte list option" where
  "one_fill block_size i = Some (replicate block_size 0xFF)"

definition random_fill :: "(nat \<Rightarrow> nat \<Rightarrow> byte) \<Rightarrow> nat \<Rightarrow> nat \<Rightarrow> byte list option" where
  "random_fill ent block_size i = Some (token_bytes ent i block_size)"

definition dod_3_pass :: "(nat \<Rightarrow> nat \<Rightarrow> byte) \<Rightarrow> nat \<Rightarrow> nat \<Rightarrow> byte list option" where
  "dod_3_pass ent block_size i =
     (if i = 0 then Some (replicate block_size 0x00)
      else if i = 1 then Some (replicate block_size 0xFF)
      else if i = 2 then Some (token_bytes ent i block_size)
      else None)"

definition dod_7_patterns :: "byte option list" where
  "dod_7_patterns = [Some 0x00, Some 0xFF, Some 0x92, Some 0x49, Some 0x24, Some 0x00, None]"

definition dod_7_pass :: "(nat \<Rightarrow> nat \<Rightarrow> byte) \<Rightarrow> nat \<Rightarrow> nat \<Rightarrow> byte list option" where
  "dod_7_pass ent block_size i =
     (if i < length dod_7_patterns then
        (case dod_7_patterns ! i of
           None \<Rightarrow> Some (token_bytes ent i block_size)
         | Some b \<Rightarrow> Some (replicate block_size b))
      else None)"

definition nist_clear :: "(nat \<Rightarrow> nat \<Rightarrow> byte) \<Rightarrow> nat \<Rightarrow> nat \<Rightarrow> byte list option" where
  "nist_clear ent block_size i = random_fill ent block_size i"

definition nist_purge :: "(nat \<Rightarrow> nat \<Rightarrow> byte) \<Rightarrow> nat \<Rightarrow> nat \<Rightarrow> byte list option" where
  "nist_purge ent block_size i =
     (if i = 0 then Some (token_bytes ent i block_size)
      else if i = 1 then Some (replicate block_size 0x00)
      else if i = 2 then Some (token_bytes ent i block_size)
      else None)"

definition gutmann_patterns :: "byte list list" where
  "gutmann_patterns =
     [[0x55], [0xAA], [0x92], [0x49], [0x24], [0x00], [0x11],
      [0x22], [0x33], [0x44], [0x55], [0x66], [0x77], [0x88],
      [0x99], [0xAA], [0xBB], [0xCC], [0xDD], [0xEE], [0xFF],
      [0x92], [0x49], [0x24], [0x12], [0xED], [0xB8], [0x74],
      [0x36], [0x1B], [0x8D], [0xC4], [0x62], [0x31], [0x18]]"

definition gutmann_method :: "nat \<Rightarrow> nat \<Rightarrow> byte list option" where
  "gutmann_method block_size i =
     (if i < length gutmann_patterns then
        (let pat = gutmann_patterns ! i in
         if length pat = 1 then Some (concat (replicate block_size pat))
         else Some (take block_size
                      (concat (replicate (block_size div length pat + 1) pat))))
      else None)"

fun get_pattern_data ::
  "(nat \<Rightarrow> nat \<Rightarrow> byte) \<Rightarrow> WipePattern \<Rightarrow> nat \<Rightarrow> nat \<Rightarrow> byte list option" where
  "get_pattern_data ent ZERO_FILL block_size i = zero_fill block_size i"
| "get_pattern_data ent ONE_FILL block_size i = one_fill block_size i"
| "get_pattern_data ent RANDOM block_size i = random_fill ent block_size i"
| "get_pattern_data ent DOD_3_PASS block_size i = dod_3_pass ent block_size i"
| "get_pattern_data ent DOD_7_PASS block_size i = dod_7_pass ent block_size i"
| "get_pattern_data ent NIST_CLEAR block_size i = nist_clear ent block_size i"
| "get_pattern_data ent NIST_PURGE block_size i = nist_purge ent block_size i"
| "get_pattern_data ent GUTMANN block_size i = gutmann_method block_size i"

text \<open>\<open>random_pass p j\<close>: the block that the generator of scheme \<open>p\<close> yields at index \<open>j\<close>
  (from 0) is the value of a call of \<open>secrets.token_bytes\<close>: every block of \<open>random\<close> and
  \<open>nist_clear\<close>, the third of \<open>dod_3_pass\<close>, the seventh of \<open>dod_7_pass\<close>, the first and
  the third of \<open>nist_purge\<close>.\<close>

fun random_pass :: "WipePattern \<Rightarrow> nat \<Rightarrow> bool" where
  "random_pass ZERO_FILL j = False"
| "random_pass ONE_FILL j = False"
| "random_pass RANDOM j = True"
| "random_pass DOD_3_PASS j = (j = 2)"
| "random_pass DOD_7_PASS j = (j = 6)"
| "random_pass NIST_CLEAR j = True"
| "random_pass NIST_PURGE j = (j = 0 \<or> j = 2)"
| "random_pass GUTMANN j = False"

section \<open>Wipe engine (core/wiper.py)\<close>

datatype WipeStatus = PENDING | IN_PROGRESS | COMPLETED | FAILED | CANCELLED

text \<open>
  Timestamps are microsecond counts. The \<open>metadata\<close> dictionary of the dataclass is
  never read or written by the engine or the certificate generator and is left out.
\<close>

record WipeResult =
  device_path :: string
  pattern :: WipePattern
  status :: WipeStatus
  start_time :: int
  end_time :: "int option"
  bytes_wiped :: nat
  total_bytes :: nat
  passes_completed :: nat
  total_passes :: nat
  error_message :: "string option"
  verification_hash :: "string option"

text \<open>
  What an observer of one operation can see, in order: each read of the cancellation
  flag with the value read, each chunk handed to a successful \<open>write\<close>, the result
  record after each assignment to one of its fields, and each snapshot passed to the
  progress callback.
\<close>

datatype event =
  Flag_read bool | Wrote "byte list" | Assigned WipeResult | Reported WipeResult

record run =
  result :: WipeResult
  trace :: "event list"

datatype io_fault = No_fault | Write_fails string | Sync_fails string

datatype format_outcome = Format_ok | Format_called_process_error | Format_raises string

text \<open>
  Everything outside the engine. The oracles that depend on time are indexed by the
  length of the trace at the moment they are consulted: \<open>cancel_from = Some k\<close> means
  \<open>cancel_operation\<close> has set \<open>_cancelled\<close> by instant \<open>k\<close> (the flag is never reset);
  \<open>fault_at t\<close> says whether the \<open>write\<close> issued at instant \<open>t\<close> raises, or the
  \<open>flush\<close>/\<open>fsync\<close> after it does; \<open>now t\<close> is \<open>datetime.now()\<close>.
  \<open>open_rw_error = Some msg\<close> means opening the target with mode \<open>r+b\<close> raises;
  \<open>size_query = Inl msg\<close> means the size of the target cannot be read.
  A \<open>write\<close> that does not raise takes the whole chunk and returns its length, as
  the buffered binary file object opened by the engine does. \<open>readback_digest\<close> is the
  SHA-256 text \<open>_verify_wipe_completion\<close> computes from the target (\<open>None\<close> when
  reading it back raises); \<open>format_result\<close> and \<open>remove_error\<close> say how the quick
  format and \<open>os.remove\<close> end.
\<close>

record world =
  path_exists :: bool
  path_isfile :: bool
  readable :: bool
  open_rw_error :: "string option"
  size_query :: "string + nat"
  cancel_from :: "nat option"
  fault_at :: "nat \<Rightarrow> io_fault"
  entropy :: "nat \<Rightarrow> nat \<Rightarrow> byte"
  now :: "nat \<Rightarrow> int"
  readback_digest :: "string option"
  format_result :: format_outcome
  remove_error :: "string option"

text \<open>
  The \<open>DataWiper\<close> object. The block size is a natural number (byte counts are never
  negative here). A progress callback, when present, is an observer: it receives the
  snapshot and returns.
\<close>

record DataWiper =
  block_size :: nat
  progress_callback :: bool
  verify_wipe :: bool

definition tick :: "run \<Rightarrow> nat" where
  "tick s = length (trace s)"

definition flag_set :: "world \<Rightarrow> nat \<Rightarrow> bool" where
  "flag_set w t = (case cancel_from w of None \<Rightarrow> False | Some k \<Rightarrow> k \<le> t)"

definition emit :: "event \<Rightarrow> run \<Rightarrow> run" where
  "emit e s = s\<lparr>trace := trace s @ [e]\<rparr>"

definition read_cancelled :: "world \<Rightarrow> run \<Rightarrow> run" where
  "read_cancelled w s = emit (Flag_read (flag_set w (tick s))) s"

definition assign :: "(WipeResult \<Rightarrow> WipeResult) \<Rightarrow> run \<Rightarrow> run" where
  "assign f s = emit (Assigned (f (result s))) (s\<lparr>result := f (result s)\<rparr>)"

definition update_progress :: "DataWiper \<Rightarrow> run \<Rightarrow> run" where
  "update_progress dw s = (if progress_callback dw then emit (Reported (result s)) s else s)"

definition validate_device :: "world \<Rightarrow> bool" where
  "validate_device w = (if \<not> path_exists w then False else if readable w then True else False)"

definition get_device_size :: "world \<Rightarrow> nat" where
  "get_device_size w = (case size_query w of Inr n \<Rightarrow> n | Inl msg \<Rightarrow> 0)"

fun get_pass_count :: "WipePattern \<Rightarrow> nat" where
  "get_pass_count ZERO_FILL = 1"
| "get_pass_count ONE_FILL = 1"
| "get_pass_count RANDOM = 1"
| "get_pass_count DOD_3_PASS = 3"
| "get_pass_count DOD_7_PASS = 7"
| "get_pass_count NIST_CLEAR = 1"
| "get_pass_count NIST_PURGE = 3"
| "get_pass_count GUTMANN = 35"

datatype loop_exit = Loop_done | Return_False | Raised string

text \<open>
  The inner \<open>while\<close> loop of \<open>_perform_wipe\<close>. It may run forever (a block size of 0 on
  a non-empty target makes no progress), so not returning is the value \<open>None\<close>.
\<close>

partial_function (option) wipe_blocks ::
  "world \<Rightarrow> DataWiper \<Rightarrow> byte list \<Rightarrow> nat \<Rightarrow> nat \<Rightarrow> run \<Rightarrow> (loop_exit \<times> nat \<times> run) option"
where
  "wipe_blocks w dw pass_data bytes_written_pass bytes_written_total s =
     (if bytes_written_pass < total_bytes (result s) then
        (if flag_set w (tick s) then Some (Return_False, bytes_written_total, read_cancelled w s)
         else
           (let s1 = read_cancelled w s;
                remaining = total_bytes (result s1) - bytes_written_pass;
                chunk_size = min (block_size dw) remaining;
                chunk = (if chunk_size = block_size dw then pass_data
                         else take chunk_size pass_data)
            in case fault_at w (tick s1) of
                 Write_fails msg \<Rightarrow> Some (Raised msg, bytes_written_total, s1)
               | Sync_fails msg \<Rightarrow>
                   Some (Raised msg, bytes_written_total + length chunk,
                     update_progress dw
                       (assign (\<lambda>r. r\<lparr>bytes_wiped := bytes_written_total + length chunk\<rparr>)
                          (emit (Wrote chunk) s1)))
               | No_fault \<Rightarrow>
                   wipe_blocks w dw pass_data
                     (bytes_written_pass + length chunk)
                     (bytes_written_total + length chunk)
                     (update_progress dw
                       (assign (\<lambda>r. r\<lparr>bytes_wiped := bytes_written_total + length chunk\<rparr>)
                          (emit (Wrote chunk) s1)))))
      else Some (Loop_done, bytes_written_total, s))"

declare wipe_blocks.simps [code]

text \<open>What the \<open>for\<close> loop over the generator leaves: a \<open>return\<close> value, or an
  exception on its way to the handler of \<open>_perform_wipe\<close>.\<close>

datatype passes_exit = Returned bool | Escaped string

partial_function (option) perform_passes ::
  "world \<Rightarrow> DataWiper \<Rightarrow> WipePattern \<Rightarrow> nat \<Rightarrow> nat \<Rightarrow> run \<Rightarrow> (passes_exit \<times> run) option"
where
  "perform_passes w dw p pass_number bytes_written_total s =
     (case get_pattern_data (entropy w) p (block_size dw) pass_number of
        None \<Rightarrow> Some (Returned True, s)
      | Some pass_data \<Rightarrow>
          (if flag_set w (tick s) then Some (Returned False, read_cancelled w s)
           else
             (case wipe_blocks w dw pass_data 0 bytes_written_total
                     (assign (\<lambda>r. r\<lparr>passes_completed := pass_number + 1\<rparr>)
                        (read_cancelled w s)) of
                None \<Rightarrow> None
              | Some (Return_False, n, s') \<Rightarrow> Some (Returned False, s')
              | Some (Raised msg, n, s') \<Rightarrow> Some (Escaped msg, s')
              | Some (Loop_done, n, s') \<Rightarrow>
                  (if pass_number + 1 \<ge> total_passes (result s') then Some (Returned True, s')
                   else perform_passes w dw p (pass_number + 1) n s'))))"

declare perform_passes.simps [code]

definition perform_wipe :: "world \<Rightarrow> DataWiper \<Rightarrow> WipePattern \<Rightarrow> run \<Rightarrow> (bool \<times> run) option" where
  "perform_wipe w dw p s =
     (case open_rw_error w of
        Some msg \<Rightarrow> Some (False, assign (\<lambda>r. r\<lparr>error_message := Some msg\<rparr>) s)
      | None \<Rightarrow>
          (case perform_passes w dw p 0 0 s of
             None \<Rightarrow> None
           | Some (Returned b, s') \<Rightarrow> Some (b, s')
           | Some (Escaped msg, s') \<Rightarrow>
               Some (False, assign (\<lambda>r. r\<lparr>error_message := Some msg\<rparr>) s')))"

definition verify_wipe_completion :: "world \<Rightarrow> string" where
  "verify_wipe_completion w = (case readback_digest w of Some h \<Rightarrow> h | None \<Rightarrow> [])"

text \<open>The \<open>except Exception\<close> handler of \<open>wipe_device\<close> and \<open>wipe_file\<close>.\<close>

definition on_exception :: "world \<Rightarrow> string \<Rightarrow> run \<Rightarrow> run" where
  "on_exception w msg s =
     (let s1 = assign (\<lambda>r. r\<lparr>status := FAILED\<rparr>) s;
          s2 = assign (\<lambda>r. r\<lparr>error_message := Some msg\<rparr>) s1
      in assign (\<lambda>r. r\<lparr>end_time := Some (now w (tick s2))\<rparr>) s2)"

definition set_outcome :: "world \<Rightarrow> WipeStatus \<Rightarrow> run \<Rightarrow> run" where
  "set_outcome w st s =
     (let s1 = assign (\<lambda>r. r\<lparr>status := st\<rparr>) s
      in assign (\<lambda>r. r\<lparr>end_time := Some (now w (tick s1))\<rparr>) s1)"

text \<open>The \<open>elif self._cancelled: ... else: ...\<close> tail of both operations.\<close>

definition cancelled_or_failed :: "world \<Rightarrow> run \<Rightarrow> run" where
  "cancelled_or_failed w s =
     (if flag_set w (tick s) then set_outcome w CANCELLED (read_cancelled w s)
      else set_outcome w FAILED (read_cancelled w s))"

definition new_result :: "world \<Rightarrow> string \<Rightarrow> WipePattern \<Rightarrow> WipeResult" where
  "new_result w path p =
     \<lparr>device_path = path, pattern = p, status = PENDING, start_time = now w 0,
      end_time = None, bytes_wiped = 0, total_bytes = 0, passes_completed = 0,
      total_passes = 0, error_message = None, verification_hash = None\<rparr>"

definition start :: "world \<Rightarrow> string \<Rightarrow> WipePattern \<Rightarrow> run" where
  "start w path p = \<lparr>result = new_result w path p, trace = [Assigned (new_result w path p)]\<rparr>"

definition wipe_device ::
  "world \<Rightarrow> DataWiper \<Rightarrow> string \<Rightarrow> WipePattern \<Rightarrow> bool \<Rightarrow> run option" where
  "wipe_device w dw path p quick_format =
     (let s0 = start w path p in
      if \<not> validate_device w then
        Some (assign (\<lambda>r. r\<lparr>error_message :=
                       Some (''Invalid or inaccessible device: '' @ path)\<rparr>)
               (assign (\<lambda>r. r\<lparr>status := FAILED\<rparr>) s0))
      else
        (let s1 = assign (\<lambda>r. r\<lparr>total_bytes := get_device_size w\<rparr>) s0;
             s2 = assign (\<lambda>r. r\<lparr>total_passes := get_pass_count p\<rparr>) s1;
             s3 = update_progress dw (assign (\<lambda>r. r\<lparr>status := IN_PROGRESS\<rparr>) s2)
         in case perform_wipe w dw p s3 of
              None \<Rightarrow> None
            | Some (success, s4) \<Rightarrow>
                Some (update_progress dw
                  (if success then
                     (if \<not> flag_set w (tick s4) then
                        (let s5 = set_outcome w COMPLETED (read_cancelled w s4);
                             s6 = (if verify_wipe dw
                                   then assign (\<lambda>r. r\<lparr>verification_hash :=
                                                  Some (verify_wipe_completion w)\<rparr>) s5
                                   else s5)
                         in if quick_format then
                              (case format_result w of
                                 Format_raises msg \<Rightarrow> on_exception w msg s6
                               | _ \<Rightarrow> s6)
                            else s6)
                      else cancelled_or_failed w (read_cancelled w s4))
                   else cancelled_or_failed w s4))))"

section \<open>File wiping (core/wiper.py)\<close>

text \<open>The inner \<open>while\<close> loop of \<open>_perform_file_wipe\<close>.\<close>

partial_function (option) file_wipe_blocks ::
  "world \<Rightarrow> DataWiper \<Rightarrow> byte list \<Rightarrow> nat \<Rightarrow> run \<Rightarrow> (loop_exit \<times> run) option"
where
  "file_wipe_blocks w dw pass_data bytes_written s =
     (if bytes_written < total_bytes (result s) then
        (if flag_set w (tick s) then Some (Return_False, read_cancelled w s)
         else
           (let s1 = read_cancelled w s;
                remaining = total_bytes (result s1) - bytes_written;
                chunk_size = min (block_size dw) remaining;
                chunk = (if chunk_size = block_size dw then pass_data
                         else take chunk_size pass_data)
            in case fault_at w (tick s1) of
                 Write_fails msg \<Rightarrow> Some (Raised msg, s1)
               | Sync_fails msg \<Rightarrow>
                   Some (Raised msg,
                     update_progress dw
                       (assign (\<lambda>r. r\<lparr>bytes_wiped := bytes_written + length chunk\<rparr>)
                          (emit (Wrote chunk) s1)))
               | No_fault \<Rightarrow>
                   file_wipe_blocks w dw pass_data (bytes_written + length chunk)
                     (update_progress dw
                       (assign (\<lambda>r. r\<lparr>bytes_wiped := bytes_written + length chunk\<rparr>)
                          (emit (Wrote chunk) s1)))))
      else Some (Loop_done, s))"

declare file_wipe_blocks.simps [code]

text \<open>The \<open>for\<close> loop of \<open>_perform_file_wipe\<close>; \<open>i\<close> is \<open>pass_number - 1\<close>. The file
  is opened anew in every pass.\<close>

partial_function (option) file_passes ::
  "world \<Rightarrow> DataWiper \<Rightarrow> WipePattern \<Rightarrow> nat \<Rightarrow> run \<Rightarrow> (passes_exit \<times> run) option"
where
  "file_passes w dw p i s =
     (case get_pattern_data (entropy w) p (block_size dw) i of
        None \<Rightarrow> Some (Returned True, s)
      | Some pass_data \<Rightarrow>
          (if flag_set w (tick s) then Some (Returned False, read_cancelled w s)
           else
             (let s1 = assign (\<lambda>r. r\<lparr>passes_completed := i + 1\<rparr>) (read_cancelled w s)
              in case open_rw_error w of
                   Some msg \<Rightarrow> Some (Escaped msg, s1)
                 | None \<Rightarrow>
                     (case file_wipe_blocks w dw pass_data 0 s1 of
                        None \<Rightarrow> None
                      | Some (Return_False, s') \<Rightarrow> Some (Returned False, s')
                      | Some (Raised msg, s') \<Rightarrow> Some (Escaped msg, s')
                      | Some (Loop_done, s') \<Rightarrow>
                          (if i + 1 \<ge> total_passes (result s') then Some (Returned True, s')
                           else file_passes w dw p (i + 1) s')))))"

declare file_passes.simps [code]

definition perform_file_wipe ::
  "world \<Rightarrow> DataWiper \<Rightarrow> WipePattern \<Rightarrow> run \<Rightarrow> (bool \<times> run) option" where
  "perform_file_wipe w dw p s =
     (case file_passes w dw p 0 s of
        None \<Rightarrow> None
      | Some (Returned b, s') \<Rightarrow> Some (b, s')
      | Some (Escaped msg, s') \<Rightarrow>
          Some (False, assign (\<lambda>r. r\<lparr>error_message := Some msg\<rparr>) s'))"

text \<open>\<open>wipe_file\<close>. \<open>os.path.getsize\<close> raises when the size cannot be read
  (\<open>size_query = Inl msg\<close>); \<open>os.remove\<close> raises when \<open>remove_error\<close> is set.\<close>

definition wipe_file ::
  "world \<Rightarrow> DataWiper \<Rightarrow> string \<Rightarrow> WipePattern \<Rightarrow> bool \<Rightarrow> run option" where
  "wipe_file w dw path p remove_file =
     (let s0 = start w path p in
      if \<not> path_exists w \<or> \<not> path_isfile w then
        Some (assign (\<lambda>r. r\<lparr>error_message := Some (''File not found: '' @ path)\<rparr>)
               (assign (\<lambda>r. r\<lparr>status := FAILED\<rparr>) s0))
      else
        (case size_query w of
           Inl msg \<Rightarrow> Some (update_progress dw (on_exception w msg s0))
         | Inr file_size \<Rightarrow>
             (let s1 = assign (\<lambda>r. r\<lparr>total_bytes := file_size\<rparr>) s0;
                  s2 = assign (\<lambda>r. r\<lparr>total_passes := get_pass_count p\<rparr>) s1;
                  s3 = update_progress dw (assign (\<lambda>r. r\<lparr>status := IN_PROGRESS\<rparr>) s2)
              in case perform_file_wipe w dw p s3 of
                   None \<Rightarrow> None
                 | Some (success, s4) \<Rightarrow>
                     Some (update_progress dw
                       (if success then
                          (if \<not> flag_set w (tick s4) then
                             (let s5 = set_outcome w COMPLETED (read_cancelled w s4)
                              in if remove_file then
                                   (case remove_error w of
                                      Some msg \<Rightarrow> on_exception w msg s5
                                    | None \<Rightarrow> s5)
                                 else s5)
                           else cancelled_or_failed w (read_cancelled w s4))
                        else cancelled_or_failed w s4)))))"

section \<open>Certificates (crypto/certificate.py)\<close>

text \<open>The fields of the dataclass, in its order. Five of them share their name with a
  field of \<open>WipeResult\<close> and carry the prefix \<open>cert_\<close> here.\<close>

record WipeCertificate =
  certificate_id :: string
  cert_device_path :: string
  device_serial :: "string option"
  device_model :: "string option"
  device_size_bytes :: int
  wipe_pattern :: string
  wipe_start_time :: string
  wipe_end_time :: string
  wipe_duration_seconds :: real
  cert_bytes_wiped :: int
  cert_passes_completed :: int
  cert_verification_hash :: "string option"
  cert_status :: string
  operator :: string
  organization :: string
  nist_compliance :: string
  certificate_hash :: string
  digital_signature :: string
  created_at :: string
  version :: string

datatype json = JNull | JString string | JInt int | JFloat real

definition opt_string :: "string option \<Rightarrow> json" where
  "opt_string v = (case v of None \<Rightarrow> JNull | Some s \<Rightarrow> JString s)"

text \<open>\<open>to_dict\<close> (\<open>dataclasses.asdict\<close>): the dictionary as the list of its items.\<close>

definition to_dict :: "WipeCertificate \<Rightarrow> (string \<times> json) list" where
  "to_dict c =
     [(''certificate_id'', JString (certificate_id c)),
      (''device_path'', JString (cert_device_path c)),
      (''device_serial'', opt_string (device_serial c)),
      (''device_model'', opt_string (device_model c)),
      (''device_size_bytes'', JInt (device_size_bytes c)),
      (''wipe_pattern'', JString (wipe_pattern c)),
      (''wipe_start_time'', JString (wipe_start_time c)),
      (''wipe_end_time'', JString (wipe_end_time c)),
      (''wipe_duration_seconds'', JFloat (wipe_duration_seconds c)),
      (''bytes_wiped'', JInt (cert_bytes_wiped c)),
      (''passes_completed'', JInt (cert_passes_completed c)),
      (''verification_hash'', opt_string (cert_verification_hash c)),
      (''status'', JString (cert_status c)),
      (''operator'', JString (operator c)),
      (''organization'', JString (organization c)),
      (''nist_compliance'', JString (nist_compliance c)),
      (''certificate_hash'', JString (certificate_hash c)),
      (''digital_signature'', JString (digital_signature c)),
      (''created_at'', JString (created_at c)),
      (''version'', JString (version c))]"

text \<open>\<open>d.pop(key, default)\<close>, the dictionary that is left.\<close>

definition pop :: "string \<Rightarrow> (string \<times> json) list \<Rightarrow> (string \<times> json) list" where
  "pop key d = filter (\<lambda>kv. fst kv \<noteq> key) d"

fun pattern_value :: "WipePattern \<Rightarrow> string" where
  "pattern_value ZERO_FILL = ''zero_fill''"
| "pattern_value ONE_FILL = ''one_fill''"
| "pattern_value RANDOM = ''random''"
| "pattern_value DOD_3_PASS = ''dod_3_pass''"
| "pattern_value DOD_7_PASS = ''dod_7_pass''"
| "pattern_value GUTMANN = ''gutmann''"
| "pattern_value NIST_CLEAR = ''nist_clear''"
| "pattern_value NIST_PURGE = ''nist_purge''"

fun status_value :: "WipeStatus \<Rightarrow> string" where
  "status_value PENDING = ''pending''"
| "status_value IN_PROGRESS = ''in_progress''"
| "status_value COMPLETED = ''completed''"
| "status_value FAILED = ''failed''"
| "status_value CANCELLED = ''cancelled''"

text \<open>\<open>WipeResult.duration\<close>: seconds between the two timestamps, 0 without an end.\<close>

definition duration :: "WipeResult \<Rightarrow> real" where
  "duration r =
     (case end_time r of
        Some e \<Rightarrow> real_of_int (e - start_time r) / 1000000
      | None \<Rightarrow> 0)"

text \<open>\<open>bytes.hex()\<close>, \<open>bytes.fromhex\<close> and \<open>str.encode()\<close> on text of one-byte
  characters. \<open>fromhex\<close> skips ASCII whitespace in front of a pair of digits and at the
  end, takes digits of either case, and raises (\<open>None\<close>) on anything else.\<close>

definition hex_digit :: "nat \<Rightarrow> char" where
  "hex_digit n = (if n < 10 then char_of (48 + n) else char_of (87 + n))"

definition hex :: "byte list \<Rightarrow> string" where
  "hex bs = concat (map (\<lambda>b. [hex_digit (unat b div 16), hex_digit (unat b mod 16)]) bs)"

definition digit_value :: "char \<Rightarrow> nat option" where
  "digit_value c =
     (let v = (of_char c :: nat) in
      if 48 \<le> v \<and> v \<le> 57 then Some (v - 48)
      else if 97 \<le> v \<and> v \<le> 102 then Some (v - 87)
      else if 65 \<le> v \<and> v \<le> 70 then Some (v - 55)
      else None)"

definition is_space :: "char \<Rightarrow> bool" where
  "is_space c = ((of_char c :: nat) \<in> {9, 10, 11, 12, 13, 32})"

fun fromhex :: "string \<Rightarrow> byte list option" where
  "fromhex [] = Some []"
| "fromhex [c] = (if is_space c then Some [] else None)"
| "fromhex (c # d # ds) =
     (if is_space c then fromhex (d # ds)
      else (case (digit_value c, digit_value d) of
              (Some hi, Some lo) \<Rightarrow>
                (case fromhex ds of
                   Some bs \<Rightarrow> Some (of_nat (16 * hi + lo) # bs)
                 | None \<Rightarrow> None)
            | _ \<Rightarrow> None))"

definition encode :: "string \<Rightarrow> byte list" where
  "encode s = map (\<lambda>c. of_nat (of_char c)) s"

text \<open>
  What the generator draws on: the JSON library (\<open>json.dumps(d, sort_keys=True)\<close>), the
  hash (\<open>hashlib.sha256(text.encode()).hexdigest()\<close>), the RSA-PSS signature of the held
  key pair (\<open>sign\<close> may raise, \<open>verify\<close> is true when the library's \<open>verify\<close> does not
  raise), the identifier and the time stamp drawn for this issuance, and
  \<open>datetime.isoformat\<close>.
\<close>

record crypto =
  json_dumps :: "(string \<times> json) list \<Rightarrow> string"
  sha256_hexdigest :: "string \<Rightarrow> string"
  sign :: "byte list \<Rightarrow> string + byte list"
  verify :: "byte list \<Rightarrow> byte list \<Rightarrow> bool"
  new_certificate_id :: string
  utc_now_iso :: string
  isoformat :: "int \<Rightarrow> string"

record CertificateGenerator =
  gen_organization :: string
  gen_operator :: string

definition generate_certificate ::
  "crypto \<Rightarrow> CertificateGenerator \<Rightarrow> WipeResult \<Rightarrow> (string \<rightharpoonup> string) option
     \<Rightarrow> string + WipeCertificate" where
  "generate_certificate env gen wipe_result device_info =
     (let info = (case device_info of None \<Rightarrow> Map.empty | Some d \<Rightarrow> d);
          cert_data =
            \<lparr>certificate_id = new_certificate_id env,
             cert_device_path = device_path wipe_result,
             device_serial = info ''serial_number'',
             device_model = info ''model'',
             device_size_bytes = int (total_bytes wipe_result),
             wipe_pattern = pattern_value (pattern wipe_result),
             wipe_start_time = isoformat env (start_time wipe_result),
             wipe_end_time = (case end_time wipe_result of
                                Some e \<Rightarrow> isoformat env e | None \<Rightarrow> []),
             wipe_duration_seconds = duration wipe_result,
             cert_bytes_wiped = int (bytes_wiped wipe_result),
             cert_passes_completed = int (passes_completed wipe_result),
             cert_verification_hash = verification_hash wipe_result,
             cert_status = status_value (status wipe_result),
             operator = gen_operator gen,
             organization = gen_organization gen,
             nist_compliance = ''NIST SP 800-88 Rev. 1'',
             certificate_hash = [],
             digital_signature = [],
             created_at = utc_now_iso env,
             version = ''1.0''\<rparr>;
          cert_dict = pop ''digital_signature'' (pop ''certificate_hash'' (to_dict cert_data));
          cert_json = json_dumps env cert_dict;
          cert_hash = sha256_hexdigest env cert_json
      in case sign env (encode cert_hash) of
           Inl e \<Rightarrow> Inl e
         | Inr signature \<Rightarrow>
             Inr (cert_data\<lparr>certificate_hash := cert_hash,
                             digital_signature := hex signature\<rparr>))"

definition verify_certificate :: "crypto \<Rightarrow> WipeCertificate \<Rightarrow> bool" where
  "verify_certificate env certificate =
     (let cert_dict = to_dict certificate;
          original_hash = certificate_hash certificate;
          original_signature = digital_signature certificate;
          cert_json = json_dumps env
                        (pop ''digital_signature'' (pop ''certificate_hash'' cert_dict));
          expected_hash = sha256_hexdigest env cert_json
      in if original_hash \<noteq> expected_hash then False
         else (case fromhex original_signature of
                 None \<Rightarrow> False
               | Some signature_bytes \<Rightarrow> verify env (encode expected_hash) signature_bytes))"

section \<open>Observations on a run\<close>

text \<open>The chunks handed to \<open>write\<close>, in order.\<close>

definition writes :: "event list \<Rightarrow> byte list list" where
  "writes tr = concat (map (\<lambda>e. case e of Wrote c \<Rightarrow> [c] | _ \<Rightarrow> []) tr)"

text \<open>The values of the result record that observers get to see, in order: after each
  assignment and at each call of the progress callback.\<close>

definition observed :: "event list \<Rightarrow> WipeResult list" where
  "observed tr = concat (map (\<lambda>e. case e of Assigned r \<Rightarrow> [r] | Reported r \<Rightarrow> [r] | _ \<Rightarrow> []) tr)"

text \<open>Some read of the cancellation flag found it set.\<close>

definition seen :: "event list \<Rightarrow> bool" where
  "seen tr = (Flag_read True \<in> set tr)"

definition seen_cancel :: "run \<Rightarrow> bool" where
  "seen_cancel s = seen (trace s)"

text \<open>The same observations on a finished run.\<close>

definition written :: "run \<Rightarrow> byte list list" where
  "written s = writes (trace s)"

definition bytes_wiped_history :: "run \<Rightarrow> nat list" where
  "bytes_wiped_history s = map bytes_wiped (observed (trace s))"

definition status_history :: "run \<Rightarrow> WipeStatus list" where
  "status_history s = map status (observed (trace s))"

text \<open>\<open>chain R s\<close>: the record of \<open>s\<close> is the last one observed, and each observed
  record is related by \<open>R\<close> to the next.\<close>

definition chain :: "(WipeResult \<Rightarrow> WipeResult \<Rightarrow> bool) \<Rightarrow> run \<Rightarrow> bool" where
  "chain R s =
     (observed (trace s) \<noteq> [] \<and> last (observed (trace s)) = result s
      \<and> successively R (observed (trace s)))"

text \<open>Two records that differ at most in \<open>bytes_wiped\<close> and \<open>passes_completed\<close>.\<close>

definition same_but_progress :: "WipeResult \<Rightarrow> WipeResult \<Rightarrow> bool" where
  "same_but_progress r r' =
     (device_path r' = device_path r \<and> pattern r' = pattern r \<and> status r' = status r
      \<and> start_time r' = start_time r \<and> end_time r' = end_time r
      \<and> total_bytes r' = total_bytes r \<and> total_passes r' = total_passes r
      \<and> error_message r' = error_message r \<and> verification_hash r' = verification_hash r)"

text \<open>Names for the parts of one iteration of the loops: the chunk chosen by lines
  296 to 303 of wiper.py, the state after a block has been written and reported, and the
  state after the head of a pass.\<close>

definition next_chunk :: "DataWiper \<Rightarrow> byte list \<Rightarrow> nat \<Rightarrow> run \<Rightarrow> byte list" where
  "next_chunk dw blk k s =
     (let remaining = total_bytes (result s) - k;
          chunk_size = min (block_size dw) remaining
      in if chunk_size = block_size dw then blk else take chunk_size blk)"

definition after_write :: "world \<Rightarrow> DataWiper \<Rightarrow> byte list \<Rightarrow> nat \<Rightarrow> run \<Rightarrow> run" where
  "after_write w dw chunk b s =
     update_progress dw
       (assign (\<lambda>r. r\<lparr>bytes_wiped := b\<rparr>) (emit (Wrote chunk) (read_cancelled w s)))"

definition begin_pass :: "world \<Rightarrow> nat \<Rightarrow> run \<Rightarrow> run" where
  "begin_pass w i s = assign (\<lambda>r. r\<lparr>passes_completed := i + 1\<rparr>) (read_cancelled w s)"

text \<open>\<open>tiles S blk cs\<close>: the chunks \<open>cs\<close> lay the block \<open>blk\<close> over \<open>S\<close> bytes. Every
  chunk but the last is the whole block, and the last is the block cut to the bytes that
  were left when it was written.\<close>

definition tiles :: "nat \<Rightarrow> byte list \<Rightarrow> byte list list \<Rightarrow> bool" where
  "tiles S blk cs =
     (butlast cs = replicate (length cs - 1) blk
      \<and> (cs \<noteq> [] \<longrightarrow> last cs = take (S - (length cs - 1) * length blk) blk))"

text \<open>The chunks handed to \<open>write\<close>, in order, each with the value that
  \<open>result.passes_completed\<close> had when it was written: \<open>pn\<close> is the value before the
  first event, and every assignment to the result record sets it anew. The engine sets
  \<open>result.passes_completed = pass_number\<close> at the head of each pass, so the chunks of
  pass number \<open>i\<close> (counted from 1, as the code does) are those with stamp \<open>i\<close>.\<close>

fun stamped :: "nat \<Rightarrow> event list \<Rightarrow> (nat \<times> byte list) list" where
  "stamped pn [] = []"
| "stamped pn (Wrote c # es) = (pn, c) # stamped pn es"
| "stamped pn (Assigned r # es) = stamped (passes_completed r) es"
| "stamped pn (Flag_read b # es) = stamped pn es"
| "stamped pn (Reported r # es) = stamped pn es"

definition chunks_in_pass :: "nat \<Rightarrow> event list \<Rightarrow> byte list list" where
  "chunks_in_pass i tr = map snd (filter (\<lambda>x. fst x = i) (stamped 0 tr))"

text \<open>The chunk lists of the passes that a run began, in order: one list for each value
  \<open>1, \<dots>, result.passes_completed\<close> of the pass counter.\<close>

definition pass_chunks :: "run \<Rightarrow> byte list list list" where
  "pass_chunks s = map (\<lambda>j. chunks_in_pass (Suc j) (trace s)) [0..<passes_completed (result s)]"

text \<open>The value of \<open>result.passes_completed\<close> after a list of events.\<close>

fun counter_after :: "nat \<Rightarrow> event list \<Rightarrow> nat" where
  "counter_after pn [] = pn"
| "counter_after pn (Wrote c # es) = counter_after pn es"
| "counter_after pn (Assigned r # es) = counter_after (passes_completed r) es"
| "counter_after pn (Flag_read b # es) = counter_after pn es"
| "counter_after pn (Reported r # es) = counter_after pn es"

text \<open>The stamped chunks of a run, whose record starts with \<open>passes_completed = 0\<close>;
  and the runs in which the last assignment recorded in the trace left the pass counter
  that the record holds.\<close>

definition stamps :: "run \<Rightarrow> (nat \<times> byte list) list" where
  "stamps s = stamped 0 (trace s)"

definition synced :: "run \<Rightarrow> bool" where
  "synced s = (counter_after 0 (trace s) = passes_completed (result s))"

text \<open>Chunk lists numbered from \<open>i\<close> on, flattened.\<close>

fun tag_from :: "nat \<Rightarrow> byte list list list \<Rightarrow> (nat \<times> byte list) list" where
  "tag_from i [] = []"
| "tag_from i (cs # css) = map (Pair i) cs @ tag_from (Suc i) css"

text \<open>\<open>pass_pieces gen S i css\<close>: the chunk lists \<open>css\<close> are those of the passes
  \<open>i, i + 1, \<dots>\<close> in order. The list for pass \<open>i + j\<close> tiles the target with the block the
  generator \<open>gen\<close> yields at index \<open>i + j\<close>, and every pass but the last covers the whole
  target.\<close>

definition pass_pieces ::
  "(nat \<Rightarrow> byte list option) \<Rightarrow> nat \<Rightarrow> nat \<Rightarrow> byte list list list \<Rightarrow> bool" where
  "pass_pieces gen S i css =
     (\<forall>j<length css. \<exists>blk. gen (i + j) = Some blk \<and> tiles S blk (css ! j)
          \<and> (Suc j < length css \<longrightarrow> length (concat (css ! j)) = S))"

section \<open>The status state machine\<close>

text \<open>The status changes the engine is built to make.\<close>

definition wipe_transition :: "WipeStatus \<Rightarrow> WipeStatus \<Rightarrow> bool" where
  "wipe_transition a b =
     ((a = PENDING \<and> (b = IN_PROGRESS \<or> b = FAILED))
      \<or> (a = IN_PROGRESS \<and> (b = COMPLETED \<or> b = FAILED \<or> b = CANCELLED)))"

text \<open>The quick format raises something other than \<open>CalledProcessError\<close>.\<close>

definition format_raises :: "world \<Rightarrow> bool" where
  "format_raises w = (case format_result w of Format_raises msg \<Rightarrow> True | _ \<Rightarrow> False)"

text \<open>One step of the status as observers see it: unchanged, a transition, or, when a
  step after completion raises, \<open>completed\<close> overwritten by \<open>failed\<close>.\<close>

definition status_step :: "bool \<Rightarrow> WipeStatus \<Rightarrow> WipeStatus \<Rightarrow> bool" where
  "status_step post_raises a b =
     (a = b \<or> wipe_transition a b \<or> (post_raises \<and> a = COMPLETED \<and> b = FAILED))"

text \<open>The state machine as first stated: \<open>pending \<rightarrow> in_progress \<rightarrow> {completed, failed,
  cancelled}\<close> and nothing else.\<close>

definition stated_step :: "WipeStatus \<Rightarrow> WipeStatus \<Rightarrow> bool" where
  "stated_step a b =
     (a = b \<or> (a = PENDING \<and> b = IN_PROGRESS)
      \<or> (a = IN_PROGRESS \<and> (b = COMPLETED \<or> b = FAILED \<or> b = CANCELLED)))"

definition follows_stated_machine :: "run \<Rightarrow> bool" where
  "follows_stated_machine s = successively stated_step (status_history s)"

section \<open>Observations on a certificate\<close>

text \<open>What the hash is computed from: the dictionary without the two popped keys.\<close>

definition payload :: "WipeCertificate \<Rightarrow> (string \<times> json) list" where
  "payload c = pop ''digital_signature'' (pop ''certificate_hash'' (to_dict c))"

definition content_hash :: "crypto \<Rightarrow> WipeCertificate \<Rightarrow> string" where
  "content_hash env c = sha256_hexdigest env (json_dumps env (payload c))"

text \<open>The status text of what \<open>generate_certificate\<close> returned.\<close>

definition issued_status :: "string + WipeCertificate \<Rightarrow> string + string" where
  "issued_status x = map_sum id cert_status x"

text \<open>A change of one field of a certificate to a given value.\<close>

datatype field_change =
    Set_certificate_id string
  | Set_device_path string
  | Set_device_serial "string option"
  | Set_device_model "string option"
  | Set_device_size_bytes int
  | Set_wipe_pattern string
  | Set_wipe_start_time string
  | Set_wipe_end_time string
  | Set_wipe_duration_seconds real
  | Set_bytes_wiped int
  | Set_passes_completed int
  | Set_verification_hash "string option"
  | Set_status string
  | Set_operator string
  | Set_organization string
  | Set_nist_compliance string
  | Set_certificate_hash string
  | Set_digital_signature string
  | Set_created_at string
  | Set_version string

fun apply_change :: "field_change \<Rightarrow> WipeCertificate \<Rightarrow> WipeCertificate" where
  "apply_change (Set_certificate_id v) c = c\<lparr>certificate_id := v\<rparr>"
| "apply_change (Set_device_path v) c = c\<lparr>cert_device_path := v\<rparr>"
| "apply_change (Set_device_serial v) c = c\<lparr>device_serial := v\<rparr>"
| "apply_change (Set_device_model v) c = c\<lparr>device_model := v\<rparr>"
| "apply_change (Set_device_size_bytes v) c = c\<lparr>device_size_bytes := v\<rparr>"
| "apply_change (Set_wipe_pattern v) c = c\<lparr>wipe_pattern := v\<rparr>"
| "apply_change (Set_wipe_start_time v) c = c\<lparr>wipe_start_time := v\<rparr>"
| "apply_change (Set_wipe_end_time v) c = c\<lparr>wipe_end_time := v\<rparr>"
| "apply_change (Set_wipe_duration_seconds v) c = c\<lparr>wipe_duration_seconds := v\<rparr>"
| "apply_change (Set_bytes_wiped v) c = c\<lparr>cert_bytes_wiped := v\<rparr>"
| "apply_change (Set_passes_completed v) c = c\<lparr>cert_passes_completed := v\<rparr>"
| "apply_change (Set_verification_hash v) c = c\<lparr>cert_verification_hash := v\<rparr>"
| "apply_change (Set_status v) c = c\<lparr>cert_status := v\<rparr>"
| "apply_change (Set_operator v) c = c\<lparr>operator := v\<rparr>"
| "apply_change (Set_organization v) c = c\<lparr>organization := v\<rparr>"
| "apply_change (Set_nist_compliance v) c = c\<lparr>nist_compliance := v\<rparr>"
| "apply_change (Set_certificate_hash v) c = c\<lparr>certificate_hash := v\<rparr>"
| "apply_change (Set_digital_signature v) c = c\<lparr>digital_signature := v\<rparr>"
| "apply_change (Set_created_at v) c = c\<lparr>created_at := v\<rparr>"
| "apply_change (Set_version v) c = c\<lparr>version := v\<rparr>"

text \<open>The change gives the field a value different from the one it has.\<close>

fun alters :: "field_change \<Rightarrow> WipeCertificate \<Rightarrow> bool" where
  "alters (Set_certificate_id v) c = (v \<noteq> certificate_id c)"
| "alters (Set_device_path v) c = (v \<noteq> cert_device_path c)"
| "alters (Set_device_serial v) c = (v \<noteq> device_serial c)"
| "alters (Set_device_model v) c = (v \<noteq> device_model c)"
| "alters (Set_device_size_bytes v) c = (v \<noteq> device_size_bytes c)"
| "alters (Set_wipe_pattern v) c = (v \<noteq> wipe_pattern c)"
| "alters (Set_wipe_start_time v) c = (v \<noteq> wipe_start_time c)"
| "alters (Set_wipe_end_time v) c = (v \<noteq> wipe_end_time c)"
| "alters (Set_wipe_duration_seconds v) c = (v \<noteq> wipe_duration_seconds c)"
| "alters (Set_bytes_wiped v) c = (v \<noteq> cert_bytes_wiped c)"
| "alters (Set_passes_completed v) c = (v \<noteq> cert_passes_completed c)"
| "alters (Set_verification_hash v) c = (v \<noteq> cert_verification_hash c)"
| "alters (Set_status v) c = (v \<noteq> cert_status c)"
| "alters (Set_operator v) c = (v \<noteq> operator c)"
| "alters (Set_organization v) c = (v \<noteq> organization c)"
| "alters (Set_nist_compliance v) c = (v \<noteq> nist_compliance c)"
| "alters (Set_certificate_hash v) c = (v \<noteq> certificate_hash c)"
| "alters (Set_digital_signature v) c = (v \<noteq> digital_signature c)"
| "alters (Set_created_at v) c = (v \<noteq> created_at c)"
| "alters (Set_version v) c = (v \<noteq> version c)"

text \<open>The change is to \<open>certificate_hash\<close>, respectively to \<open>digital_signature\<close>.\<close>

fun on_hash :: "field_change \<Rightarrow> bool" where
  "on_hash (Set_certificate_hash v) = True"
| "on_hash u = False"

fun on_signature :: "field_change \<Rightarrow> bool" where
  "on_signature (Set_digital_signature v) = True"
| "on_signature u = False"

section \<open>Sample inputs\<close>

text \<open>A 5-byte regular file that can be read and written, no cancellation, no I/O fault.\<close>

definition sample_world :: world where
  "sample_world =
     \<lparr>path_exists = True, path_isfile = True, readable = True, open_rw_error = None,
      size_query = Inr 5, cancel_from = None, fault_at = (\<lambda>t. No_fault),
      entropy = (\<lambda>i j. of_nat (i + j)), now = (\<lambda>t. int t),
      readback_digest = Some ''digest'', format_result = Format_ok, remove_error = None\<rparr>"

definition sample_wiper :: DataWiper where
  "sample_wiper = \<lparr>block_size = 2, progress_callback = True, verify_wipe = False\<rparr>"

text \<open>The state of an operation on the sample file just before its first pass.\<close>

definition sample_run :: "WipePattern \<Rightarrow> run" where
  "sample_run p =
     update_progress sample_wiper
       (assign (\<lambda>r. r\<lparr>status := IN_PROGRESS\<rparr>)
          (assign (\<lambda>r. r\<lparr>total_passes := get_pass_count p\<rparr>)
             (assign (\<lambda>r. r\<lparr>total_bytes := 5\<rparr>) (start sample_world ''f'' p))))"

text \<open>The sample file with \<open>cancel_operation\<close> called by instant 12, during the first
  pass.\<close>

definition cancelled_world :: world where
  "cancelled_world = sample_world\<lparr>cancel_from := Some 12\<rparr>"

text \<open>The sample file when \<open>os.remove\<close> is refused.\<close>

definition undeletable_world :: world where
  "undeletable_world = sample_world\<lparr>remove_error := Some ''Permission denied''\<rparr>"

text \<open>A target that does not exist, and one that can be read but not opened for
  writing.\<close>

definition missing_world :: world where
  "missing_world = sample_world\<lparr>path_exists := False, readable := False\<rparr>"

definition readonly_world :: world where
  "readonly_world = sample_world\<lparr>open_rw_error := Some ''[Errno 13] Permission denied''\<rparr>"

text \<open>A small stand-in for the libraries: a serializer, a one-byte checksum as digest,
  and a signature that is the message reversed.\<close>

definition sample_render :: "json \<Rightarrow> string" where
  "sample_render v =
     (case v of JNull \<Rightarrow> ''null'' | JString s \<Rightarrow> s
      | JInt i \<Rightarrow> replicate (nat i) CHR ''1'' | JFloat x \<Rightarrow> ''f'')"

definition sample_dumps :: "(string \<times> json) list \<Rightarrow> string" where
  "sample_dumps d = concat (map (\<lambda>kv. sample_render (snd kv) @ '';'') d)"

definition sample_digest :: "string \<Rightarrow> string" where
  "sample_digest s = hex [foldl (+) 0 (encode s)]"

definition sample_crypto :: crypto where
  "sample_crypto =
     \<lparr>json_dumps = sample_dumps, sha256_hexdigest = sample_digest,
      sign = (\<lambda>m. Inr (rev m)), verify = (\<lambda>m sg. sg = rev m),
      new_certificate_id = ''BW-1'',
      utc_now_iso = ''t'',
      isoformat = (\<lambda>t. replicate (nat t) CHR ''1'')\<rparr>"

definition sample_generator :: CertificateGenerator where
  "sample_generator =
     \<lparr>gen_organization = ''Org'', gen_operator = ''op''\<rparr>"

text \<open>A completed result, and one that is still pending.\<close>

definition completed_result :: WipeResult where
  "completed_result =
     \<lparr>device_path = ''f'', pattern = ZERO_FILL, status = COMPLETED, start_time = 0,
      end_time = Some 2, bytes_wiped = 5, total_bytes = 5, passes_completed = 1,
      total_passes = 1, error_message = None, verification_hash = None\<rparr>"

definition pending_result :: WipeResult where
  "pending_result = new_result sample_world ''f'' ZERO_FILL"

text \<open>The certificate issued for the completed sample result.\<close>

definition sample_certificate :: WipeCertificate where
  "sample_certificate =
     \<lparr>certificate_id = ''BW-1'', cert_device_path = ''f'',
      device_serial = None, device_model = None, device_size_bytes = 5,
      wipe_pattern = ''zero_fill'', wipe_start_time = [],
      wipe_end_time = ''11'', wipe_duration_seconds = 1 / 500000,
      cert_bytes_wiped = 5, cert_passes_completed = 1,
      cert_verification_hash = None, cert_status = ''completed'',
      operator = ''op'', organization = ''Org'',
      nist_compliance = ''NIST SP 800-88 Rev. 1'',
      certificate_hash = ''46'', digital_signature = ''3634'',
      created_at = ''t'', version = ''1.0''\<rparr>"

section \<open>Basic facts about the primitives\<close>

lemma writes_simps [simp]:
  "writes [] = []"
  "writes (tr @ tr') = writes tr @ writes tr'"
  "writes (Wrote c # tr) = c # writes tr"
  "writes (Flag_read b # tr) = writes tr"
  "writes (Assigned r # tr) = writes tr"
  "writes (Reported r # tr) = writes tr"
  by (simp_all add: writes_def)

lemma emit_simps [simp]:
  "result (emit e s) = result s"
  "trace (emit e s) = trace s @ [e]"
  by (simp_all add: emit_def)

lemma read_cancelled_simps [simp]:
  "result (read_cancelled w s) = result s"
  "trace (read_cancelled w s) = trace s @ [Flag_read (flag_set w (tick s))]"
  by (simp_all add: read_cancelled_def)

lemma assign_simps [simp]:
  "result (assign f s) = f (result s)"
  "trace (assign f s) = trace s @ [Assigned (f (result s))]"
  by (simp_all add: assign_def)

lemma update_progress_simps [simp]:
  "result (update_progress dw s) = result s"
  "trace (update_progress dw s) =
     trace s @ (if progress_callback dw then [Reported (result s)] else [])"
  by (simp_all add: update_progress_def)

lemma flag_never_set [simp]: "cancel_from w = None \<Longrightarrow> flag_set w t = False"
  by (simp add: flag_set_def)

lemma token_bytes_length [simp]: "length (token_bytes ent i n) = n"
  by (simp add: token_bytes_def)

lemma length_concat_replicate [simp]:
  "length (concat (replicate n xs)) = n * length xs"
  by (induction n) simp_all

lemma gutmann_patterns_single:
  "i < length gutmann_patterns \<Longrightarrow> length (gutmann_patterns ! i) = 1"
proof -
  have "\<forall>p \<in> set gutmann_patterns. length p = 1"
    by (simp add: gutmann_patterns_def)
  then show "i < length gutmann_patterns \<Longrightarrow> length (gutmann_patterns ! i) = 1"
    using nth_mem by blast
qed

lemma gutmann_method_length: "gutmann_method B i = Some blk \<Longrightarrow> length blk = B"
  by (auto simp: gutmann_method_def Let_def gutmann_patterns_single split: if_splits)

lemma dod_7_pass_length: "dod_7_pass ent B i = Some blk \<Longrightarrow> length blk = B"
  by (auto simp: dod_7_pass_def split: if_splits option.splits)

lemma get_pattern_data_length:
  "get_pattern_data ent p B i = Some blk \<Longrightarrow> length blk = B"
  by (cases p)
     (auto simp: zero_fill_def one_fill_def random_fill_def dod_3_pass_def
        nist_clear_def nist_purge_def gutmann_method_length dod_7_pass_length
        split: if_splits)

lemma wipe_blocks_pass:
  assumes nc: "cancel_from w = None" and nf: "\<forall>t. fault_at w t = No_fault"
    and B: "0 < block_size dw" and len: "length blk = block_size dw"
  shows "k \<le> S \<Longrightarrow> block_size dw dvd k \<Longrightarrow> total_bytes (result s) = S \<Longrightarrow>
     \<exists>s' cs. wipe_blocks w dw blk k n s = Some (Loop_done, n + (S - k), s')
        \<and> writes (trace s') = writes (trace s) @ cs
        \<and> sum_list (map length cs) = S - k
        \<and> (k = S \<longrightarrow> cs = [])
        \<and> (k < S \<longrightarrow> cs \<noteq> [] \<and> length (last cs) =
               (if S mod block_size dw = 0 then block_size dw else S mod block_size dw))"
proof (induction "S - k" arbitrary: k n s rule: less_induct)
  case less
  show ?case
  proof (cases "k < S")
    case False
    with less.prems have "k = S" by simp
    then show ?thesis using less.prems
      by (subst wipe_blocks.simps) simp
  next
    case True
    define chunk where "chunk = (if min (block_size dw) (S - k) = block_size dw then blk
                                 else take (min (block_size dw) (S - k)) blk)"
    define s2 where "s2 = update_progress dw
        (assign (\<lambda>r. r\<lparr>bytes_wiped := n + length chunk\<rparr>)
           (emit (Wrote chunk) (read_cancelled w s)))"
    have lc: "length chunk = min (block_size dw) (S - k)"
      using len by (simp add: chunk_def)
    have cpos: "0 < length chunk" using True B by (simp add: lc)
    have "wipe_blocks w dw blk k n s =
            (let s1 = read_cancelled w s;
                remaining = total_bytes (result s1) - k;
                chunk_size = min (block_size dw) remaining;
                chunk = (if chunk_size = block_size dw then blk else take chunk_size blk)
            in wipe_blocks w dw blk (k + length chunk) (n + length chunk)
                     (update_progress dw
                       (assign (\<lambda>r. r\<lparr>bytes_wiped := n + length chunk\<rparr>)
                          (emit (Wrote chunk) (read_cancelled w s)))))"
      using True less.prems nc nf
      by (subst wipe_blocks.simps) (simp add: Let_def)
    then have step: "wipe_blocks w dw blk k n s =
        wipe_blocks w dw blk (k + length chunk) (n + length chunk) s2"
      using less.prems by (simp add: Let_def chunk_def s2_def)
    have tb: "total_bytes (result s2) = S" using less.prems by (simp add: s2_def)
    have k': "k + length chunk \<le> S" using True by (simp add: lc)
    have dv: "block_size dw dvd k + length chunk \<or> k + length chunk = S"
      using less.prems(2) by (auto simp: lc min_def)
    have ws: "writes (trace s2) = writes (trace s) @ [chunk]"
      by (simp add: s2_def)
    show ?thesis
    proof (cases "k + length chunk = S")
      case True
      have "wipe_blocks w dw blk (k + length chunk) (n + length chunk) s2 =
              Some (Loop_done, n + length chunk, s2)"
        using True tb by (subst wipe_blocks.simps) simp
      moreover have "length chunk = S - k" using True by simp
      moreover have "length chunk =
          (if S mod block_size dw = 0 then block_size dw else S mod block_size dw)"
      proof -
        obtain q where q: "k = block_size dw * q" using less.prems(2) by (auto simp: dvd_def)
        have le: "length chunk \<le> block_size dw" by (simp add: lc)
        have S: "S = block_size dw * q + length chunk" using True q by simp
        show ?thesis
        proof (cases "length chunk = block_size dw")
          case True
          then show ?thesis using S by simp
        next
          case False
          then have "length chunk < block_size dw" using le by simp
          then show ?thesis using S cpos by simp
        qed
      qed
      ultimately show ?thesis using step ws \<open>k < S\<close>
        by (intro exI [of _ s2] exI [of _ "[chunk]"]) simp
    next
      case False
      then have lt: "k + length chunk < S" using k' by simp
      then have full: "length chunk = block_size dw" by (simp add: lc min_def split: if_splits)
      have dv': "block_size dw dvd k + length chunk" using less.prems(2) full by simp
      have "S - (k + length chunk) < S - k" using cpos \<open>k < S\<close> by arith
      from less.hyps [OF this k' dv' tb, of "n + length chunk"]
      obtain s' cs where r: "wipe_blocks w dw blk (k + length chunk) (n + length chunk) s2 =
            Some (Loop_done, n + length chunk + (S - (k + length chunk)), s')"
        and w': "writes (trace s') = writes (trace s2) @ cs"
        and sm: "sum_list (map length cs) = S - (k + length chunk)"
        and ne: "cs \<noteq> []"
        and la: "length (last cs) =
               (if S mod block_size dw = 0 then block_size dw else S mod block_size dw)"
        using lt by auto
      have "n + length chunk + (S - (k + length chunk)) = n + (S - k)" using lt by simp
      then show ?thesis using step r w' sm ne la ws lt
        by (intro exI [of _ s'] exI [of _ "chunk # cs"]) simp
    qed
  qed
qed

lemma file_wipe_blocks_pass:
  assumes nc: "cancel_from w = None" and nf: "\<forall>t. fault_at w t = No_fault"
    and B: "0 < block_size dw" and len: "length blk = block_size dw"
  shows "k \<le> S \<Longrightarrow> block_size dw dvd k \<Longrightarrow> total_bytes (result s) = S \<Longrightarrow>
     \<exists>s' cs. file_wipe_blocks w dw blk k s = Some (Loop_done, s')
        \<and> writes (trace s') = writes (trace s) @ cs
        \<and> sum_list (map length cs) = S - k
        \<and> (k = S \<longrightarrow> cs = [])
        \<and> (k < S \<longrightarrow> cs \<noteq> [] \<and> length (last cs) =
               (if S mod block_size dw = 0 then block_size dw else S mod block_size dw))"
proof (induction "S - k" arbitrary: k s rule: less_induct)
  case less
  show ?case
  proof (cases "k < S")
    case False
    with less.prems have "k = S" by simp
    then show ?thesis using less.prems
      by (subst file_wipe_blocks.simps) simp
  next
    case True
    define chunk where "chunk = (if min (block_size dw) (S - k) = block_size dw then blk
                                 else take (min (block_size dw) (S - k)) blk)"
    define s2 where "s2 = update_progress dw
        (assign (\<lambda>r. r\<lparr>bytes_wiped := k + length chunk\<rparr>)
           (emit (Wrote chunk) (read_cancelled w s)))"
    have lc: "length chunk = min (block_size dw) (S - k)"
      using len by (simp add: chunk_def)
    have cpos: "0 < length chunk" using True B by (simp add: lc)
    have "file_wipe_blocks w dw blk k s =
            (let s1 = read_cancelled w s;
                remaining = total_bytes (result s1) - k;
                chunk_size = min (block_size dw) remaining;
                chunk = (if chunk_size = block_size dw then blk else take chunk_size blk)
            in file_wipe_blocks w dw blk (k + length chunk)
                     (update_progress dw
                       (assign (\<lambda>r. r\<lparr>bytes_wiped := k + length chunk\<rparr>)
                          (emit (Wrote chunk) (read_cancelled w s)))))"
      using True less.prems nc nf
      by (subst file_wipe_blocks.simps) (simp add: Let_def)
    then have step: "file_wipe_blocks w dw blk k s =
        file_wipe_blocks w dw blk (k + length chunk) s2"
      using less.prems by (simp add: Let_def chunk_def s2_def)
    have tb: "total_bytes (result s2) = S" using less.prems by (simp add: s2_def)
    have k': "k + length chunk \<le> S" using True by (simp add: lc)
    have dv: "block_size dw dvd k + length chunk \<or> k + length chunk = S"
      using less.prems(2) by (auto simp: lc min_def)
    have ws: "writes (trace s2) = writes (trace s) @ [chunk]"
      by (simp add: s2_def)
    show ?thesis
    proof (cases "k + length chunk = S")
      case True
      have "file_wipe_blocks w dw blk (k + length chunk) s2 =
              Some (Loop_done, s2)"
        using True tb by (subst file_wipe_blocks.simps) simp
      moreover have "length chunk = S - k" using True by simp
      moreover have "length chunk =
          (if S mod block_size dw = 0 then block_size dw else S mod block_size dw)"
      proof -
        obtain q where q: "k = block_size dw * q" using less.prems(2) by (auto simp: dvd_def)
        have le: "length chunk \<le> block_size dw" by (simp add: lc)
        have S: "S = block_size dw * q + length chunk" using True q by simp
        show ?thesis
        proof (cases "length chunk = block_size dw")
          case True
          then show ?thesis using S by simp
        next
          case False
          then have "length chunk < block_size dw" using le by simp
          then show ?thesis using S cpos by simp
        qed
      qed
      ultimately show ?thesis using step ws \<open>k < S\<close>
        by (intro exI [of _ s2] exI [of _ "[chunk]"]) simp
    next
      case False
      then have lt: "k + length chunk < S" using k' by simp
      then have full: "length chunk = block_size dw" by (simp add: lc min_def split: if_splits)
      have dv': "block_size dw dvd k + length chunk" using less.prems(2) full by simp
      have "S - (k + length chunk) < S - k" using cpos \<open>k < S\<close> by arith
      from less.hyps [OF this k' dv' tb]
      obtain s' cs where r: "file_wipe_blocks w dw blk (k + length chunk) s2 =
            Some (Loop_done, s')"
        and w': "writes (trace s') = writes (trace s2) @ cs"
        and sm: "sum_list (map length cs) = S - (k + length chunk)"
        and ne: "cs \<noteq> []"
        and la: "length (last cs) =
               (if S mod block_size dw = 0 then block_size dw else S mod block_size dw)"
        using lt by auto
      show ?thesis using step r w' sm ne la ws lt
        by (intro exI [of _ s'] exI [of _ "chunk # cs"]) simp
    qed
  qed
qed

section \<open>One pass writes the target exactly once\<close>

lemma sample_run_total [simp]: "total_bytes (result (sample_run p)) = 5"
  by (simp add: sample_run_def)

text \<open>
  Claim C1. With a block size \<open>B > 0\<close> and a target of \<open>S > 0\<close> bytes, when no
  cancellation and no I/O fault occurs, one run of the inner loop of \<open>_perform_wipe\<close>
  (and of \<open>_perform_file_wipe\<close>) on a block yielded by the pattern generator ends
  normally, the chunks it writes have lengths that sum to exactly \<open>S\<close>, and the last
  chunk has length \<open>S mod B\<close> when that is nonzero, else \<open>B\<close>.
\<close>

theorem pass_writes_exactly_total_bytes:
  assumes "cancel_from w = None" and "\<forall>t. fault_at w t = No_fault"
    and "0 < block_size dw" and "0 < total_bytes (result s)"
    and "get_pattern_data (entropy w) p (block_size dw) i = Some pass_data"
  shows "(\<exists>s' cs. wipe_blocks w dw pass_data 0 n s =
              Some (Loop_done, n + total_bytes (result s), s')
            \<and> writes (trace s') = writes (trace s) @ cs
            \<and> sum_list (map length cs) = total_bytes (result s)
            \<and> cs \<noteq> []
            \<and> length (last cs) =
                 (if total_bytes (result s) mod block_size dw = 0 then block_size dw
                  else total_bytes (result s) mod block_size dw))
       \<and> (\<exists>s' cs. file_wipe_blocks w dw pass_data 0 s = Some (Loop_done, s')
            \<and> writes (trace s') = writes (trace s) @ cs
            \<and> sum_list (map length cs) = total_bytes (result s)
            \<and> cs \<noteq> []
            \<and> length (last cs) =
                 (if total_bytes (result s) mod block_size dw = 0 then block_size dw
                  else total_bytes (result s) mod block_size dw))"
proof -
  have len: "length pass_data = block_size dw"
    using assms(5) by (rule get_pattern_data_length)
  have a: "(0::nat) \<le> total_bytes (result s)" and b: "block_size dw dvd 0" by simp_all
  from wipe_blocks_pass [OF assms(1,2,3) len a b refl, of n]
       file_wipe_blocks_pass [OF assms(1,2,3) len a b refl]
  show ?thesis using assms(4) by auto
qed

theorem pass_writes_exactly_total_bytes_witness:
  "cancel_from sample_world = None \<and> (\<forall>t. fault_at sample_world t = No_fault)
   \<and> 0 < block_size sample_wiper \<and> 0 < total_bytes (result (sample_run ZERO_FILL))
   \<and> get_pattern_data (entropy sample_world) ZERO_FILL (block_size sample_wiper) 0 = Some [0, 0]
   \<and> (\<exists>s' cs. wipe_blocks sample_world sample_wiper [0, 0] 0 0 (sample_run ZERO_FILL) =
              Some (Loop_done, 5, s')
            \<and> writes (trace s') = writes (trace (sample_run ZERO_FILL)) @ cs
            \<and> sum_list (map length cs) = 5 \<and> cs \<noteq> [] \<and> length (last cs) = 1)
   \<and> (\<exists>s' cs. file_wipe_blocks sample_world sample_wiper [0, 0] 0 (sample_run ZERO_FILL) =
              Some (Loop_done, s')
            \<and> writes (trace s') = writes (trace (sample_run ZERO_FILL)) @ cs
            \<and> sum_list (map length cs) = 5 \<and> cs \<noteq> [] \<and> length (last cs) = 1)"
proof -
  have h1: "cancel_from sample_world = None" by (simp add: sample_world_def)
  have h2: "\<forall>t. fault_at sample_world t = No_fault" by (simp add: sample_world_def)
  have h3: "0 < block_size sample_wiper" by (simp add: sample_wiper_def)
  have h4: "0 < total_bytes (result (sample_run ZERO_FILL))" by simp
  have h5: "get_pattern_data (entropy sample_world) ZERO_FILL (block_size sample_wiper) 0
              = Some [0, 0]"
    by (simp add: sample_wiper_def zero_fill_def numeral_2_eq_2)
  have m: "(5::nat) mod 2 = 1" by simp
  from pass_writes_exactly_total_bytes [OF h1 h2 h3 h4 h5, of 0]
  show ?thesis using h1 h2 h3 h4 h5 by (simp add: sample_wiper_def m)
qed

section \<open>Unfolding and induction rules for the loops\<close>

lemma observed_simps [simp]:
  "observed [] = []"
  "observed (tr @ tr') = observed tr @ observed tr'"
  "observed (Wrote c # tr) = observed tr"
  "observed (Flag_read b # tr) = observed tr"
  "observed (Assigned r # tr) = r # observed tr"
  "observed (Reported r # tr) = r # observed tr"
  by (simp_all add: observed_def)

lemma tick_simps [simp]:
  "tick (emit e s) = Suc (tick s)"
  "tick (read_cancelled w s) = Suc (tick s)"
  "tick (assign f s) = Suc (tick s)"
  by (simp_all add: tick_def)

lemma tick_update_progress: "tick s \<le> tick (update_progress dw s)"
  by (simp add: tick_def)

lemma after_write_simps [simp]:
  "result (after_write w dw chunk b s) = (result s)\<lparr>bytes_wiped := b\<rparr>"
  "trace (after_write w dw chunk b s) =
     trace s @ [Flag_read (flag_set w (tick s)), Wrote chunk,
                Assigned ((result s)\<lparr>bytes_wiped := b\<rparr>)]
       @ (if progress_callback dw then [Reported ((result s)\<lparr>bytes_wiped := b\<rparr>)] else [])"
  by (simp_all add: after_write_def)

lemma tick_after_write: "tick s < tick (after_write w dw chunk b s)"
  by (simp add: tick_def)

lemma wipe_blocks_unfold:
  "wipe_blocks w dw blk k n s =
     (if k < total_bytes (result s) then
        (if flag_set w (tick s) then Some (Return_False, n, read_cancelled w s)
         else
           (case fault_at w (Suc (tick s)) of
              Write_fails msg \<Rightarrow> Some (Raised msg, n, read_cancelled w s)
            | Sync_fails msg \<Rightarrow>
                Some (Raised msg, n + length (next_chunk dw blk k s),
                      after_write w dw (next_chunk dw blk k s)
                        (n + length (next_chunk dw blk k s)) s)
            | No_fault \<Rightarrow>
                wipe_blocks w dw blk (k + length (next_chunk dw blk k s))
                  (n + length (next_chunk dw blk k s))
                  (after_write w dw (next_chunk dw blk k s)
                     (n + length (next_chunk dw blk k s)) s)))
      else Some (Loop_done, n, s))"
  by (subst wipe_blocks.simps)
     (simp add: Let_def next_chunk_def after_write_def split: io_fault.split)

lemma wipe_blocks_induct [consumes 1, case_names finished cancelled write_fails sync_fails step]:
  assumes run: "wipe_blocks w dw blk k n s = Some res"
    and finished: "\<And>k n s. \<not> k < total_bytes (result s) \<Longrightarrow> P k n s (Loop_done, n, s)"
    and cancelled: "\<And>k n s. k < total_bytes (result s) \<Longrightarrow> flag_set w (tick s) \<Longrightarrow>
            P k n s (Return_False, n, read_cancelled w s)"
    and write_fails: "\<And>k n s msg. k < total_bytes (result s) \<Longrightarrow> \<not> flag_set w (tick s) \<Longrightarrow>
            fault_at w (Suc (tick s)) = Write_fails msg \<Longrightarrow>
            P k n s (Raised msg, n, read_cancelled w s)"
    and sync_fails: "\<And>k n s msg c. k < total_bytes (result s) \<Longrightarrow> \<not> flag_set w (tick s) \<Longrightarrow>
            fault_at w (Suc (tick s)) = Sync_fails msg \<Longrightarrow> c = next_chunk dw blk k s \<Longrightarrow>
            P k n s (Raised msg, n + length c, after_write w dw c (n + length c) s)"
    and step: "\<And>k n s c res. k < total_bytes (result s) \<Longrightarrow> \<not> flag_set w (tick s) \<Longrightarrow>
            fault_at w (Suc (tick s)) = No_fault \<Longrightarrow> c = next_chunk dw blk k s \<Longrightarrow>
            P (k + length c) (n + length c) (after_write w dw c (n + length c) s) res \<Longrightarrow>
            P k n s res"
  shows "P k n s res"
proof -
  have "wipe_blocks w' dw' blk' k n s = Some res \<Longrightarrow>
          w' = w \<Longrightarrow> dw' = dw \<Longrightarrow> blk' = blk \<Longrightarrow> P k n s res" for w' dw' blk' k n s res
  proof (induction rule: wipe_blocks.raw_induct [rotated 1, consumes 1])
    case (1 f w' dw' blk' k n s res)
    note eq = \<open>w' = w\<close> \<open>dw' = dw\<close> \<open>blk' = blk\<close>
    show ?case
    proof (cases "k < total_bytes (result s)")
      case False
      with 1(2) show ?thesis using finished by auto
    next
      case lt: True
      show ?thesis
      proof (cases "flag_set w (tick s)")
        case True
        with 1(2) lt eq show ?thesis using cancelled by auto
      next
        case nf: False
        show ?thesis
        proof (cases "fault_at w (Suc (tick s))")
          case No_fault
          define c where "c = next_chunk dw blk k s"
          have r: "f w dw blk (k + length c) (n + length c)
                    (after_write w dw c (n + length c) s) = Some res"
            using 1(2) lt nf eq No_fault
            by (simp add: Let_def next_chunk_def after_write_def c_def cong: if_cong)
          from 1(1) [OF r] have "P (k + length c) (n + length c)
                    (after_write w dw c (n + length c) s) res" by simp
          then show ?thesis using step [OF lt nf No_fault c_def] by blast
        next
          case (Write_fails msg)
          with 1(2) lt nf eq show ?thesis using write_fails by (auto simp: Let_def)
        next
          case (Sync_fails msg)
          define c where "c = next_chunk dw blk k s"
          have "res = (Raised msg, n + length c, after_write w dw c (n + length c) s)"
            using 1(2) lt nf eq Sync_fails
            by (simp add: Let_def next_chunk_def after_write_def c_def cong: if_cong)
          then show ?thesis using sync_fails [OF lt nf Sync_fails c_def] by blast
        qed
      qed
    qed
  qed
  with run show ?thesis by blast
qed

lemma begin_pass_simps [simp]:
  "result (begin_pass w i s) = (result s)\<lparr>passes_completed := Suc i\<rparr>"
  "trace (begin_pass w i s) =
     trace s @ [Flag_read (flag_set w (tick s)), Assigned ((result s)\<lparr>passes_completed := Suc i\<rparr>)]"
  by (simp_all add: begin_pass_def)

lemma file_wipe_blocks_unfold:
  "file_wipe_blocks w dw blk k s =
     (if k < total_bytes (result s) then
        (if flag_set w (tick s) then Some (Return_False, read_cancelled w s)
         else
           (case fault_at w (Suc (tick s)) of
              Write_fails msg \<Rightarrow> Some (Raised msg, read_cancelled w s)
            | Sync_fails msg \<Rightarrow>
                Some (Raised msg,
                      after_write w dw (next_chunk dw blk k s)
                        (k + length (next_chunk dw blk k s)) s)
            | No_fault \<Rightarrow>
                file_wipe_blocks w dw blk (k + length (next_chunk dw blk k s))
                  (after_write w dw (next_chunk dw blk k s)
                     (k + length (next_chunk dw blk k s)) s)))
      else Some (Loop_done, s))"
  by (subst file_wipe_blocks.simps)
     (simp add: Let_def next_chunk_def after_write_def split: io_fault.split)

text \<open>With the running total started at the per-pass count, the device loop computes
  what the file loop computes.\<close>

lemma file_wipe_blocks_as_wipe_blocks:
  "file_wipe_blocks w' dw' blk' k s = Some res \<Longrightarrow>
     \<exists>n'. wipe_blocks w' dw' blk' k k s = Some (fst res, n', snd res)"
proof (induction rule: file_wipe_blocks.raw_induct [rotated 1, consumes 1])
  case (1 f w dw blk k s res)
  show ?case
  proof (cases "k < total_bytes (result s)")
    case False
    with 1(2) show ?thesis by (subst wipe_blocks_unfold) auto
  next
    case lt: True
    show ?thesis
    proof (cases "flag_set w (tick s)")
      case True
      with 1(2) lt show ?thesis by (subst wipe_blocks_unfold) auto
    next
      case nf: False
      show ?thesis
      proof (cases "fault_at w (Suc (tick s))")
        case No_fault
        define c where "c = next_chunk dw blk k s"
        have r: "f w dw blk (k + length c) (after_write w dw c (k + length c) s) = Some res"
          using 1(2) lt nf No_fault
          by (simp add: Let_def next_chunk_def after_write_def c_def cong: if_cong)
        from 1(1) [OF r] show ?thesis using lt nf No_fault
          by (subst wipe_blocks_unfold) (simp add: c_def)
      next
        case (Write_fails msg)
        with 1(2) lt nf show ?thesis by (subst wipe_blocks_unfold) (auto simp: Let_def)
      next
        case (Sync_fails msg)
        define c where "c = next_chunk dw blk k s"
        have "res = (Raised msg, after_write w dw c (k + length c) s)"
          using 1(2) lt nf Sync_fails
          by (simp add: Let_def next_chunk_def after_write_def c_def cong: if_cong)
        then show ?thesis using lt nf Sync_fails
          by (subst wipe_blocks_unfold) (simp add: c_def)
      qed
    qed
  qed
qed

lemma wipe_blocks_as_file_wipe_blocks:
  assumes "wipe_blocks w dw blk k n s = Some res" and "n = k"
  shows "file_wipe_blocks w dw blk k s = Some (fst res, snd (snd res))"
  using assms
proof (induction rule: wipe_blocks_induct)
  case (finished k n s)
  then show ?case by (subst file_wipe_blocks_unfold) simp
next
  case (cancelled k n s)
  then show ?case by (subst file_wipe_blocks_unfold) simp
next
  case (write_fails k n s msg)
  then show ?case by (subst file_wipe_blocks_unfold) simp
next
  case (sync_fails k n s msg c)
  then show ?case by (subst file_wipe_blocks_unfold) simp
next
  case (step k n s c res)
  then show ?case by (subst file_wipe_blocks_unfold) simp
qed

lemma perform_passes_unfold:
  "perform_passes w dw p i n s =
     (case get_pattern_data (entropy w) p (block_size dw) i of
        None \<Rightarrow> Some (Returned True, s)
      | Some blk \<Rightarrow>
          (if flag_set w (tick s) then Some (Returned False, read_cancelled w s)
           else
             (case wipe_blocks w dw blk 0 n (begin_pass w i s) of
                None \<Rightarrow> None
              | Some (Return_False, n', s') \<Rightarrow> Some (Returned False, s')
              | Some (Raised msg, n', s') \<Rightarrow> Some (Escaped msg, s')
              | Some (Loop_done, n', s') \<Rightarrow>
                  (if Suc i \<ge> total_passes (result s') then Some (Returned True, s')
                   else perform_passes w dw p (Suc i) n' s'))))"
  by (subst perform_passes.simps)
     (simp add: begin_pass_def split: option.split prod.split loop_exit.split)

lemma perform_passes_induct
  [consumes 1, case_names exhausted cancelled pass_cancelled pass_raised last_pass step]:
  assumes run: "perform_passes w dw p i n s = Some res"
    and exhausted: "\<And>i n s. get_pattern_data (entropy w) p (block_size dw) i = None \<Longrightarrow>
            P i n s (Returned True, s)"
    and cancelled: "\<And>i n s blk. get_pattern_data (entropy w) p (block_size dw) i = Some blk \<Longrightarrow>
            flag_set w (tick s) \<Longrightarrow> P i n s (Returned False, read_cancelled w s)"
    and pass_cancelled: "\<And>i n s blk n' s'.
            get_pattern_data (entropy w) p (block_size dw) i = Some blk \<Longrightarrow>
            \<not> flag_set w (tick s) \<Longrightarrow>
            wipe_blocks w dw blk 0 n (begin_pass w i s) = Some (Return_False, n', s') \<Longrightarrow>
            P i n s (Returned False, s')"
    and pass_raised: "\<And>i n s blk msg n' s'.
            get_pattern_data (entropy w) p (block_size dw) i = Some blk \<Longrightarrow>
            \<not> flag_set w (tick s) \<Longrightarrow>
            wipe_blocks w dw blk 0 n (begin_pass w i s) = Some (Raised msg, n', s') \<Longrightarrow>
            P i n s (Escaped msg, s')"
    and last_pass: "\<And>i n s blk n' s'.
            get_pattern_data (entropy w) p (block_size dw) i = Some blk \<Longrightarrow>
            \<not> flag_set w (tick s) \<Longrightarrow>
            wipe_blocks w dw blk 0 n (begin_pass w i s) = Some (Loop_done, n', s') \<Longrightarrow>
            total_passes (result s') \<le> Suc i \<Longrightarrow>
            P i n s (Returned True, s')"
    and step: "\<And>i n s blk n' s' res.
            get_pattern_data (entropy w) p (block_size dw) i = Some blk \<Longrightarrow>
            \<not> flag_set w (tick s) \<Longrightarrow>
            wipe_blocks w dw blk 0 n (begin_pass w i s) = Some (Loop_done, n', s') \<Longrightarrow>
            \<not> total_passes (result s') \<le> Suc i \<Longrightarrow>
            P (Suc i) n' s' res \<Longrightarrow> P i n s res"
  shows "P i n s res"
proof -
  have "perform_passes w' dw' p' i n s = Some res \<Longrightarrow>
          w' = w \<Longrightarrow> dw' = dw \<Longrightarrow> p' = p \<Longrightarrow> P i n s res" for w' dw' p' i n s res
  proof (induction rule: perform_passes.raw_induct [rotated 1, consumes 1])
    case (1 f w' dw' p' i n s res)
    note eq = \<open>w' = w\<close> \<open>dw' = dw\<close> \<open>p' = p\<close>
    show ?case
    proof (cases "get_pattern_data (entropy w) p (block_size dw) i")
      case None
      with 1(2) eq show ?thesis using exhausted by auto
    next
      case (Some blk)
      show ?thesis
      proof (cases "flag_set w (tick s)")
        case True
        with 1(2) eq Some show ?thesis using cancelled by auto
      next
        case nf: False
        from 1(2) eq Some nf obtain e n' s' where
          wb: "wipe_blocks w dw blk 0 n (begin_pass w i s) = Some (e, n', s')"
          by (auto simp: begin_pass_def split: option.splits)
        show ?thesis
        proof (cases e)
          case Loop_done
          show ?thesis
          proof (cases "total_passes (result s') \<le> Suc i")
            case True
            with 1(2) eq Some nf wb Loop_done show ?thesis
              using last_pass [OF Some nf] by (auto simp: begin_pass_def)
          next
            case False
            with 1(2) eq Some nf wb Loop_done
            have "f w dw p (Suc i) n' s' = Some res" by (auto simp: begin_pass_def)
            from 1(1) [OF this] have "P (Suc i) n' s' res" by simp
            then show ?thesis using step [OF Some nf] wb Loop_done False by blast
          qed
        next
          case Return_False
          with 1(2) eq Some nf wb show ?thesis
            using pass_cancelled [OF Some nf] by (auto simp: begin_pass_def)
        next
          case (Raised msg)
          with 1(2) eq Some nf wb show ?thesis
            using pass_raised [OF Some nf] by (auto simp: begin_pass_def)
        qed
      qed
    qed
  qed
  with run show ?thesis by blast
qed

lemma file_passes_unfold:
  "file_passes w dw p i s =
     (case get_pattern_data (entropy w) p (block_size dw) i of
        None \<Rightarrow> Some (Returned True, s)
      | Some blk \<Rightarrow>
          (if flag_set w (tick s) then Some (Returned False, read_cancelled w s)
           else
             (case open_rw_error w of
                Some msg \<Rightarrow> Some (Escaped msg, begin_pass w i s)
              | None \<Rightarrow>
                 (case file_wipe_blocks w dw blk 0 (begin_pass w i s) of
                    None \<Rightarrow> None
                  | Some (Return_False, s') \<Rightarrow> Some (Returned False, s')
                  | Some (Raised msg, s') \<Rightarrow> Some (Escaped msg, s')
                  | Some (Loop_done, s') \<Rightarrow>
                      (if Suc i \<ge> total_passes (result s') then Some (Returned True, s')
                       else file_passes w dw p (Suc i) s')))))"
  by (subst file_passes.simps)
     (simp add: begin_pass_def Let_def split: option.split prod.split loop_exit.split)

lemma file_passes_induct
  [consumes 1, case_names exhausted cancelled open_fails pass_cancelled pass_raised last_pass step]:
  assumes run: "file_passes w dw p i s = Some res"
    and exhausted: "\<And>i s. get_pattern_data (entropy w) p (block_size dw) i = None \<Longrightarrow>
            P i s (Returned True, s)"
    and cancelled: "\<And>i s blk. get_pattern_data (entropy w) p (block_size dw) i = Some blk \<Longrightarrow>
            flag_set w (tick s) \<Longrightarrow> P i s (Returned False, read_cancelled w s)"
    and open_fails: "\<And>i s blk msg.
            get_pattern_data (entropy w) p (block_size dw) i = Some blk \<Longrightarrow>
            \<not> flag_set w (tick s) \<Longrightarrow> open_rw_error w = Some msg \<Longrightarrow>
            P i s (Escaped msg, begin_pass w i s)"
    and pass_cancelled: "\<And>i s blk s'.
            get_pattern_data (entropy w) p (block_size dw) i = Some blk \<Longrightarrow>
            \<not> flag_set w (tick s) \<Longrightarrow> open_rw_error w = None \<Longrightarrow>
            file_wipe_blocks w dw blk 0 (begin_pass w i s) = Some (Return_False, s') \<Longrightarrow>
            P i s (Returned False, s')"
    and pass_raised: "\<And>i s blk msg s'.
            get_pattern_data (entropy w) p (block_size dw) i = Some blk \<Longrightarrow>
            \<not> flag_set w (tick s) \<Longrightarrow> open_rw_error w = None \<Longrightarrow>
            file_wipe_blocks w dw blk 0 (begin_pass w i s) = Some (Raised msg, s') \<Longrightarrow>
            P i s (Escaped msg, s')"
    and last_pass: "\<And>i s blk s'.
            get_pattern_data (entropy w) p (block_size dw) i = Some blk \<Longrightarrow>
            \<not> flag_set w (tick s) \<Longrightarrow> open_rw_error w = None \<Longrightarrow>
            file_wipe_blocks w dw blk 0 (begin_pass w i s) = Some (Loop_done, s') \<Longrightarrow>
            total_passes (result s') \<le> Suc i \<Longrightarrow>
            P i s (Returned True, s')"
    and step: "\<And>i s blk s' res.
            get_pattern_data (entropy w) p (block_size dw) i = Some blk \<Longrightarrow>
            \<not> flag_set w (tick s) \<Longrightarrow> open_rw_error w = None \<Longrightarrow>
            file_wipe_blocks w dw blk 0 (begin_pass w i s) = Some (Loop_done, s') \<Longrightarrow>
            \<not> total_passes (result s') \<le> Suc i \<Longrightarrow>
            P (Suc i) s' res \<Longrightarrow> P i s res"
  shows "P i s res"
proof -
  have "file_passes w' dw' p' i s = Some res \<Longrightarrow>
          w' = w \<Longrightarrow> dw' = dw \<Longrightarrow> p' = p \<Longrightarrow> P i s res" for w' dw' p' i s res
  proof (induction rule: file_passes.raw_induct [rotated 1, consumes 1])
    case (1 f w' dw' p' i s res)
    note eq = \<open>w' = w\<close> \<open>dw' = dw\<close> \<open>p' = p\<close>
    show ?case
    proof (cases "get_pattern_data (entropy w) p (block_size dw) i")
      case None
      with 1(2) eq show ?thesis using exhausted by auto
    next
      case (Some blk)
      show ?thesis
      proof (cases "flag_set w (tick s)")
        case True
        with 1(2) eq Some show ?thesis using cancelled by auto
      next
        case nf: False
        show ?thesis
        proof (cases "open_rw_error w")
          case (Some msg)
          with 1(2) eq \<open>get_pattern_data (entropy w) p (block_size dw) i = Some blk\<close> nf
          show ?thesis
            using open_fails [OF \<open>get_pattern_data (entropy w) p (block_size dw) i = Some blk\<close> nf Some]
            by (auto simp: begin_pass_def Let_def)
        next
          case None
          note g = \<open>get_pattern_data (entropy w) p (block_size dw) i = Some blk\<close>
          from 1(2) eq g nf None obtain e s' where
            wb: "file_wipe_blocks w dw blk 0 (begin_pass w i s) = Some (e, s')"
            by (auto simp: begin_pass_def Let_def split: option.splits)
          show ?thesis
          proof (cases e)
            case Loop_done
            show ?thesis
            proof (cases "total_passes (result s') \<le> Suc i")
              case True
              with 1(2) eq g nf None wb Loop_done show ?thesis
                using last_pass [OF g nf None] by (auto simp: begin_pass_def Let_def)
            next
              case False
              with 1(2) eq g nf None wb Loop_done
              have "f w dw p (Suc i) s' = Some res" by (auto simp: begin_pass_def Let_def)
              from 1(1) [OF this] have "P (Suc i) s' res" by simp
              then show ?thesis using step [OF g nf None] wb Loop_done False by blast
            qed
          next
            case Return_False
            with 1(2) eq g nf None wb show ?thesis
              using pass_cancelled [OF g nf None] by (auto simp: begin_pass_def Let_def)
          next
            case (Raised msg)
            with 1(2) eq g nf None wb show ?thesis
              using pass_raised [OF g nf None] by (auto simp: begin_pass_def Let_def)
          qed
        qed
      qed
    qed
  qed
  with run show ?thesis by blast
qed

section \<open>Invariants of the loops\<close>

lemma seen_simps [simp]:
  "seen [] = False"
  "seen (tr @ tr') = (seen tr \<or> seen tr')"
  "seen (e # tr) = (e = Flag_read True \<or> seen tr)"
  by (auto simp: seen_def)

lemma flag_set_mono: "flag_set w t \<Longrightarrow> t \<le> t' \<Longrightarrow> flag_set w t'"
  by (auto simp: flag_set_def split: option.splits)

lemma next_chunk_length:
  "length blk = block_size dw \<Longrightarrow>
     length (next_chunk dw blk k s) = min (block_size dw) (total_bytes (result s) - k)"
  by (simp add: next_chunk_def Let_def)

lemma next_chunk_take: "next_chunk dw blk k s = take (length (next_chunk dw blk k s)) blk"
  by (simp add: next_chunk_def Let_def min_def)

lemma chain_read_cancelled [simp]: "chain R (read_cancelled w s) = chain R s"
  by (simp add: chain_def)

lemma chain_assign:
  "chain R s \<Longrightarrow> R (result s) (f (result s)) \<Longrightarrow> chain R (assign f s)"
  by (simp add: chain_def successively_append_iff)

lemma chain_update_progress:
  "chain R s \<Longrightarrow> R (result s) (result s) \<Longrightarrow> chain R (update_progress dw s)"
  by (simp add: chain_def successively_append_iff)

lemma chain_after_write:
  assumes "chain R s" and "R (result s) ((result s)\<lparr>bytes_wiped := b\<rparr>)"
    and "R ((result s)\<lparr>bytes_wiped := b\<rparr>) ((result s)\<lparr>bytes_wiped := b\<rparr>)"
  shows "chain R (after_write w dw c b s)"
  using assms by (simp add: chain_def successively_append_iff)

lemma chain_begin_pass:
  "chain R s \<Longrightarrow> R (result s) ((result s)\<lparr>passes_completed := Suc i\<rparr>) \<Longrightarrow>
     chain R (begin_pass w i s)"
  by (simp add: chain_def successively_append_iff)

text \<open>The inner loop touches no field of the result but \<open>bytes_wiped\<close>.\<close>

lemma wipe_blocks_frame:
  assumes "wipe_blocks w dw blk k n s = Some res"
  shows "result (snd (snd res)) = (result s)\<lparr>bytes_wiped := bytes_wiped (result (snd (snd res)))\<rparr>"
  using assms by (induction rule: wipe_blocks_induct) simp_all

lemma wipe_blocks_bound:
  assumes "wipe_blocks w dw blk k n s = Some res" and "length blk = block_size dw"
    and "k \<le> total_bytes (result s)" and "bytes_wiped (result s) \<le> n"
  shows "fst (snd res) + k \<le> n + total_bytes (result s)
       \<and> bytes_wiped (result (snd (snd res))) \<le> fst (snd res)"
  using assms
proof (induction rule: wipe_blocks_induct)
  case (step k n s c res)
  have "length c = min (block_size dw) (total_bytes (result s) - k)"
    using step by (simp add: next_chunk_length)
  with step show ?case by simp
next
  case (sync_fails k n s msg c)
  then show ?case by (simp add: next_chunk_length)
qed simp_all

lemma wipe_blocks_chain:
  assumes "wipe_blocks w dw blk k n s = Some res"
    and "\<And>r. R r r" and "\<And>r b. bytes_wiped r \<le> b \<Longrightarrow> R r (r\<lparr>bytes_wiped := b\<rparr>)"
    and "chain R s" and "bytes_wiped (result s) \<le> n"
  shows "chain R (snd (snd res))"
  using assms(1,4,5)
proof (induction rule: wipe_blocks_induct)
  case (sync_fails k n s msg c)
  then show ?case by (simp add: chain_after_write assms(2,3))
next
  case (step k n s c res)
  then show ?case by (simp add: chain_after_write assms(2,3))
qed simp_all

lemma wipe_blocks_seen:
  assumes "wipe_blocks w dw blk k n s = Some res" and "\<not> seen (trace s)"
    and "seen (trace (snd (snd res)))"
  shows "fst res = Return_False \<and> flag_set w (tick (snd (snd res)))
       \<and> (\<exists>pre. trace (snd (snd res)) = pre @ [Flag_read True] \<and> \<not> seen pre
                \<and> writes pre = writes (trace (snd (snd res))))"
  using assms
proof (induction rule: wipe_blocks_induct)
  case (cancelled k n s)
  then show ?case by (auto intro: flag_set_mono)
next
  case (sync_fails k n s msg c)
  then show ?case by (simp split: if_splits)
qed simp_all

lemma wipe_blocks_chunks:
  assumes "wipe_blocks w dw blk k n s = Some res"
  shows "\<exists>cs. writes (trace (snd (snd res))) = writes (trace s) @ cs
            \<and> (\<forall>c \<in> set cs. c = take (length c) blk)"
  using assms
proof (induction rule: wipe_blocks_induct)
  case (sync_fails k n s msg c)
  then show ?case using next_chunk_take [of dw blk k s] by simp
next
  case (step k n s c res)
  then obtain cs where "writes (trace (snd (snd res))) =
       writes (trace (after_write w dw c (n + length c) s)) @ cs"
     and "\<forall>c \<in> set cs. c = take (length c) blk" by blast
  then show ?case using next_chunk_take [of dw blk k s] step(4)
    by (intro exI [of _ "c # cs"]) simp
qed simp_all

lemma wipe_blocks_returns_when_cancelled:
  assumes "cancel_from w = Some kc"
  shows "\<exists>res. wipe_blocks w dw blk k n s = Some res"
proof (induction "kc - tick s" arbitrary: k n s rule: less_induct)
  case less
  show ?case
  proof (cases "k < total_bytes (result s) \<and> \<not> flag_set w (tick s)
                 \<and> fault_at w (Suc (tick s)) = No_fault")
    case False
    then show ?thesis
      by (subst wipe_blocks_unfold) (auto split: io_fault.split)
  next
    case True
    define c where "c = next_chunk dw blk k s"
    have "tick s < kc" using True assms by (simp add: flag_set_def)
    then have "kc - tick (after_write w dw c (n + length c) s) < kc - tick s"
      using tick_after_write [of s w dw c "n + length c"] by arith
    from less [OF this] show ?thesis using True
      by (subst wipe_blocks_unfold) (simp add: c_def)
  qed
qed

lemma wipe_blocks_chain_any:
  assumes "wipe_blocks w dw blk k n s = Some res"
    and "\<And>r. R r r" and "\<And>r b. R r (r\<lparr>bytes_wiped := b\<rparr>)"
    and "chain R s"
  shows "chain R (snd (snd res))"
  using assms(1,4)
proof (induction rule: wipe_blocks_induct)
  case (sync_fails k n s msg c)
  then show ?case by (simp add: chain_after_write assms(2,3))
next
  case (step k n s c res)
  then show ?case by (simp add: chain_after_write assms(2,3))
qed simp_all

lemma wipe_blocks_tick:
  assumes "wipe_blocks w dw blk k n s = Some res"
  shows "tick s \<le> tick (snd (snd res))"
  using assms
proof (induction rule: wipe_blocks_induct)
  case (sync_fails k n s msg c)
  then show ?case using tick_after_write [of s w dw c "n + length c"] by simp
next
  case (step k n s c res)
  then show ?case using tick_after_write [of s w dw c "n + length c"] by simp
qed simp_all

lemma tick_begin_pass [simp]: "tick (begin_pass w i s) = Suc (Suc (tick s))"
  by (simp add: tick_def)

lemma wipe_blocks_fields:
  assumes "wipe_blocks w dw blk k n s = Some res"
  shows "same_but_progress (result s) (result (snd (snd res)))
       \<and> passes_completed (result (snd (snd res))) = passes_completed (result s)"
  using assms
  by (induction rule: wipe_blocks_induct) (simp_all add: same_but_progress_def)

lemma perform_passes_fields:
  assumes "perform_passes w dw p i n s = Some res"
  shows "same_but_progress (result s) (result (snd res))"
  using assms
proof (induction rule: perform_passes_induct)
  case (pass_cancelled i n s blk n' s')
  from wipe_blocks_fields [OF this(3)] show ?case by (simp add: same_but_progress_def)
next
  case (pass_raised i n s blk msg n' s')
  from wipe_blocks_fields [OF this(3)] show ?case by (simp add: same_but_progress_def)
next
  case (last_pass i n s blk n' s')
  from wipe_blocks_fields [OF this(3)] show ?case by (simp add: same_but_progress_def)
next
  case (step i n s blk n' s' res)
  from wipe_blocks_fields [OF this(3)] step(5) show ?case by (simp add: same_but_progress_def)
qed (simp_all add: same_but_progress_def)

text \<open>The running total never exceeds the target size times the passes started.\<close>

lemma perform_passes_bound:
  assumes "perform_passes w dw p i n s = Some res"
    and "passes_completed (result s) = i" and "bytes_wiped (result s) \<le> n"
    and "n \<le> total_bytes (result s) * i"
  shows "bytes_wiped (result (snd res))
           \<le> total_bytes (result (snd res)) * passes_completed (result (snd res))"
  using assms
proof (induction rule: perform_passes_induct)
  case (pass_cancelled i n s blk n' s')
  have len: "length blk = block_size dw" using pass_cancelled(1) by (rule get_pattern_data_length)
  from wipe_blocks_fields [OF pass_cancelled(3)]
       wipe_blocks_bound [OF pass_cancelled(3) len] pass_cancelled(4-)
  show ?case by (simp add: same_but_progress_def)
next
  case (pass_raised i n s blk msg n' s')
  have len: "length blk = block_size dw" using pass_raised(1) by (rule get_pattern_data_length)
  from wipe_blocks_fields [OF pass_raised(3)]
       wipe_blocks_bound [OF pass_raised(3) len] pass_raised(4-)
  show ?case by (simp add: same_but_progress_def)
next
  case (last_pass i n s blk n' s')
  have len: "length blk = block_size dw" using last_pass(1) by (rule get_pattern_data_length)
  from wipe_blocks_fields [OF last_pass(3)]
       wipe_blocks_bound [OF last_pass(3) len] last_pass(4-)
  show ?case by (simp add: same_but_progress_def)
next
  case (step i n s blk n' s' res)
  have len: "length blk = block_size dw" using step(1) by (rule get_pattern_data_length)
  from wipe_blocks_fields [OF step(3)]
       wipe_blocks_bound [OF step(3) len] step(6-)
  have "passes_completed (result s') = Suc i" "bytes_wiped (result s') \<le> n'"
       "n' \<le> total_bytes (result s') * Suc i"
    by (simp_all add: same_but_progress_def)
  then show ?case by (rule step(5))
qed simp_all

lemma perform_passes_chain:
  assumes "perform_passes w dw p i n s = Some res"
    and "\<And>r. R r r" and "\<And>r b. bytes_wiped r \<le> b \<Longrightarrow> R r (r\<lparr>bytes_wiped := b\<rparr>)"
    and "\<And>r m. R r (r\<lparr>passes_completed := m\<rparr>)"
    and "chain R s" and "bytes_wiped (result s) \<le> n"
  shows "chain R (snd res)"
  using assms(1,5,6)
proof (induction rule: perform_passes_induct)
  case (pass_cancelled i n s blk n' s')
  have "chain R (begin_pass w i s)" using pass_cancelled by (simp add: chain_begin_pass assms(4))
  from wipe_blocks_chain [OF pass_cancelled(3) assms(2,3) this] pass_cancelled
  show ?case by simp
next
  case (pass_raised i n s blk msg n' s')
  have "chain R (begin_pass w i s)" using pass_raised by (simp add: chain_begin_pass assms(4))
  from wipe_blocks_chain [OF pass_raised(3) assms(2,3) this] pass_raised
  show ?case by simp
next
  case (last_pass i n s blk n' s')
  have "chain R (begin_pass w i s)" using last_pass by (simp add: chain_begin_pass assms(4))
  from wipe_blocks_chain [OF last_pass(3) assms(2,3) this] last_pass
  show ?case by simp
next
  case (step i n s blk n' s' res)
  have len: "length blk = block_size dw" using step(1) by (rule get_pattern_data_length)
  have "chain R (begin_pass w i s)" using step by (simp add: chain_begin_pass assms(4))
  from wipe_blocks_chain [OF step(3) assms(2,3) this] step
  have c: "chain R s'" by simp
  from wipe_blocks_bound [OF step(3) len] step have "bytes_wiped (result s') \<le> n'" by simp
  with c show ?case by (rule step(5))
qed simp_all

lemma perform_passes_seen:
  assumes "perform_passes w dw p i n s = Some res" and "\<not> seen (trace s)"
    and "seen (trace (snd res))"
  shows "fst res = Returned False \<and> flag_set w (tick (snd res))
       \<and> (\<exists>pre. trace (snd res) = pre @ [Flag_read True] \<and> \<not> seen pre
                \<and> writes pre = writes (trace (snd res)))"
  using assms
proof (induction rule: perform_passes_induct)
  case (cancelled i n s blk)
  then show ?case by (auto intro: flag_set_mono)
next
  case (pass_cancelled i n s blk n' s')
  from wipe_blocks_seen [OF pass_cancelled(3)] pass_cancelled show ?case by simp
next
  case (pass_raised i n s blk msg n' s')
  from wipe_blocks_seen [OF pass_raised(3)] pass_raised show ?case by simp
next
  case (last_pass i n s blk n' s')
  from wipe_blocks_seen [OF last_pass(3)] last_pass show ?case by simp
next
  case (step i n s blk n' s' res)
  from wipe_blocks_seen [OF step(3)] step have "\<not> seen (trace s')" by auto
  with step show ?case by simp
qed simp_all

lemma perform_passes_returns_when_cancelled:
  assumes "cancel_from w = Some kc"
  shows "\<exists>res. perform_passes w dw p i n s = Some res"
proof (induction "kc - tick s" arbitrary: i n s rule: less_induct)
  case less
  show ?case
  proof (cases "get_pattern_data (entropy w) p (block_size dw) i")
    case None
    then show ?thesis by (subst perform_passes_unfold) simp
  next
    case (Some blk)
    show ?thesis
    proof (cases "flag_set w (tick s)")
      case True
      with Some show ?thesis by (subst perform_passes_unfold) simp
    next
      case False
      then have lt: "tick s < kc" using assms by (simp add: flag_set_def)
      from wipe_blocks_returns_when_cancelled [OF assms, of dw blk 0 n "begin_pass w i s"]
      obtain e n' s' where wb: "wipe_blocks w dw blk 0 n (begin_pass w i s) = Some (e, n', s')"
        by (metis prod_cases3)
      from wipe_blocks_tick [OF wb] have "tick s < tick s'" by simp
      with lt have "kc - tick s' < kc - tick s" by arith
      from less [OF this, of "Suc i" n'] show ?thesis using Some False wb
        by (subst perform_passes_unfold) (cases e; simp)
    qed
  qed
qed

lemma get_pattern_data_yields:
  "i < get_pass_count p \<Longrightarrow> \<exists>blk. get_pattern_data ent p B i = Some blk"
  by (cases p)
     (auto simp: zero_fill_def one_fill_def random_fill_def dod_3_pass_def dod_7_pass_def
        nist_clear_def nist_purge_def gutmann_method_def Let_def dod_7_patterns_def
        gutmann_patterns_def split: option.splits)

text \<open>Without cancellation and faults, the passes from \<open>i\<close> up to the declared total
  all run, each writing the whole target.\<close>

lemma perform_passes_completes:
  assumes nc: "cancel_from w = None" and nf: "\<forall>t. fault_at w t = No_fault"
    and B: "0 < block_size dw"
  shows "i < total_passes (result s) \<Longrightarrow> total_passes (result s) = get_pass_count p \<Longrightarrow>
     \<exists>s'. perform_passes w dw p i n s = Some (Returned True, s')
        \<and> passes_completed (result s') = total_passes (result s)
        \<and> same_but_progress (result s) (result s')
        \<and> length (concat (writes (trace s'))) =
            length (concat (writes (trace s)))
              + (total_passes (result s) - i) * total_bytes (result s)"
proof (induction "total_passes (result s) - i" arbitrary: i n s rule: less_induct)
  case less
  from get_pattern_data_yields [of i p "entropy w" "block_size dw"] less.prems
  obtain blk where g: "get_pattern_data (entropy w) p (block_size dw) i = Some blk" by auto
  have len: "length blk = block_size dw" using g by (rule get_pattern_data_length)
  define S where "S = total_bytes (result s)"
  have tb: "total_bytes (result (begin_pass w i s)) = S" by (simp add: S_def)
  from wipe_blocks_pass [OF nc nf B len, of 0 S "begin_pass w i s" n] tb
  obtain s1 cs where wb: "wipe_blocks w dw blk 0 n (begin_pass w i s) = Some (Loop_done, n + S, s1)"
    and ws: "writes (trace s1) = writes (trace (begin_pass w i s)) @ cs"
    and sm: "sum_list (map length cs) = S" by auto
  from wipe_blocks_fields [OF wb]
  have f1: "same_but_progress (result s) (result s1)"
    and pc: "passes_completed (result s1) = Suc i"
    by (simp_all add: same_but_progress_def)
  have wl: "length (concat (writes (trace s1))) = length (concat (writes (trace s))) + S"
    using ws sm by (simp add: length_concat)
  have tp: "total_passes (result s1) = total_passes (result s)"
    using f1 by (simp add: same_but_progress_def)
  show ?case
  proof (cases "total_passes (result s1) \<le> Suc i")
    case True
    then have "total_passes (result s) - i = 1" using less.prems tp by simp
    then show ?thesis using g nc wb True pc f1 wl tp less.prems
      by (subst perform_passes_unfold) (simp add: S_def)
  next
    case False
    then have a: "Suc i < total_passes (result s1)" by simp
    have b: "total_passes (result s1) = get_pass_count p" using tp less.prems by simp
    have "total_passes (result s1) - Suc i < total_passes (result s) - i"
      using tp less.prems by simp
    from less.hyps [OF this a b, of "n + S"]
    obtain s' where r: "perform_passes w dw p (Suc i) (n + S) s1 = Some (Returned True, s')"
      and pc': "passes_completed (result s') = total_passes (result s1)"
      and f2: "same_but_progress (result s1) (result s')"
      and wl': "length (concat (writes (trace s'))) =
            length (concat (writes (trace s1)))
              + (total_passes (result s1) - Suc i) * total_bytes (result s1)" by blast
    have tb1: "total_bytes (result s1) = S" using f1 by (simp add: same_but_progress_def S_def)
    have "S + (total_passes (result s) - Suc i) * S = (total_passes (result s) - i) * S"
      using less.prems(1) by (metis Suc_diff_Suc mult_Suc)
    then have "length (concat (writes (trace s'))) =
        length (concat (writes (trace s))) + (total_passes (result s) - i) * S"
      using wl wl' tb1 tp by simp
    moreover have "same_but_progress (result s) (result s')"
      using f1 f2 by (simp add: same_but_progress_def)
    ultimately show ?thesis using g nc wb False r pc' tp
      by (subst perform_passes_unfold) (simp add: S_def)
  qed
qed

lemma file_wipe_blocks_fields:
  assumes "file_wipe_blocks w dw blk k s = Some res"
  shows "same_but_progress (result s) (result (snd res))
       \<and> passes_completed (result (snd res)) = passes_completed (result s)"
proof -
  from file_wipe_blocks_as_wipe_blocks [OF assms]
  obtain n' where "wipe_blocks w dw blk k k s = Some (fst res, n', snd res)" by blast
  from wipe_blocks_fields [OF this] show ?thesis by simp
qed

section \<open>Cancellation\<close>

lemma set_outcome_simps [simp]:
  "result (set_outcome w st s) =
     (result s)\<lparr>status := st, end_time := Some (now w (Suc (tick s)))\<rparr>"
  "trace (set_outcome w st s) =
     trace s @ [Assigned ((result s)\<lparr>status := st\<rparr>),
                Assigned ((result s)\<lparr>status := st, end_time := Some (now w (Suc (tick s)))\<rparr>)]"
  by (simp_all add: set_outcome_def Let_def)

lemma on_exception_simps [simp]:
  "result (on_exception w msg s) =
     (result s)\<lparr>status := FAILED, error_message := Some msg,
                end_time := Some (now w (Suc (Suc (tick s))))\<rparr>"
  "trace (on_exception w msg s) =
     trace s @ [Assigned ((result s)\<lparr>status := FAILED\<rparr>),
                Assigned ((result s)\<lparr>status := FAILED, error_message := Some msg\<rparr>),
                Assigned ((result s)\<lparr>status := FAILED, error_message := Some msg,
                            end_time := Some (now w (Suc (Suc (tick s))))\<rparr>)]"
  by (simp_all add: on_exception_def Let_def)

lemma cancelled_or_failed_simps [simp]:
  "result (cancelled_or_failed w s) =
     (result s)\<lparr>status := (if flag_set w (tick s) then CANCELLED else FAILED),
                end_time := Some (now w (Suc (Suc (tick s))))\<rparr>"
  "trace (cancelled_or_failed w s) =
     trace s @ [Flag_read (flag_set w (tick s)),
        Assigned ((result s)\<lparr>status := (if flag_set w (tick s) then CANCELLED else FAILED)\<rparr>),
        Assigned ((result s)\<lparr>status := (if flag_set w (tick s) then CANCELLED else FAILED),
                    end_time := Some (now w (Suc (Suc (tick s))))\<rparr>)]"
  by (simp_all add: cancelled_or_failed_def)

lemma start_simps [simp]:
  "result (start w path p) = new_result w path p"
  "trace (start w path p) = [Assigned (new_result w path p)]"
  by (simp_all add: start_def)

lemma new_result_simps [simp]:
  "status (new_result w path p) = PENDING"
  "bytes_wiped (new_result w path p) = 0"
  "passes_completed (new_result w path p) = 0"
  "end_time (new_result w path p) = None"
  "error_message (new_result w path p) = None"
  "total_bytes (new_result w path p) = 0"
  by (simp_all add: new_result_def)

lemma perform_wipe_seen:
  assumes "perform_wipe w dw p s = Some (success, s')" and "\<not> seen (trace s)"
    and "seen (trace s')"
  shows "\<not> success \<and> flag_set w (tick s')
       \<and> (\<exists>pre. trace s' = pre @ [Flag_read True] \<and> \<not> seen pre \<and> writes pre = writes (trace s'))"
proof (cases "open_rw_error w")
  case (Some msg)
  with assms show ?thesis by (auto simp: perform_wipe_def)
next
  case None
  with assms(1) obtain e s1 where pp: "perform_passes w dw p 0 0 s = Some (e, s1)"
    by (auto simp: perform_wipe_def split: option.splits)
  show ?thesis
  proof (cases e)
    case (Returned b)
    with pp None assms(1) have "s' = s1" "success = b" by (auto simp: perform_wipe_def)
    with perform_passes_seen [OF pp assms(2)] assms(3) Returned show ?thesis by auto
  next
    case (Escaped msg)
    with pp None assms(1) have s': "s' = assign (\<lambda>r. r\<lparr>error_message := Some msg\<rparr>) s1"
      by (auto simp: perform_wipe_def)
    with assms(3) have "seen (trace s1)" by simp
    with perform_passes_seen [OF pp assms(2)] Escaped show ?thesis by simp
  qed
qed

lemma perform_wipe_bound:
  assumes "perform_wipe w dw p s = Some (success, s')"
    and "passes_completed (result s) = 0" and "bytes_wiped (result s) = 0"
  shows "bytes_wiped (result s') \<le> total_bytes (result s') * passes_completed (result s')"
proof (cases "open_rw_error w")
  case (Some msg)
  with assms show ?thesis by (auto simp: perform_wipe_def)
next
  case None
  with assms(1) obtain e s1 where pp: "perform_passes w dw p 0 0 s = Some (e, s1)"
    by (auto simp: perform_wipe_def split: option.splits)
  from perform_passes_bound [OF pp] assms(2,3)
  have "bytes_wiped (result s1) \<le> total_bytes (result s1) * passes_completed (result s1)"
    by simp
  then show ?thesis using pp None assms(1)
    by (cases e) (auto simp: perform_wipe_def)
qed

lemma perform_wipe_returns_when_cancelled:
  assumes "cancel_from w = Some kc"
  shows "\<exists>res. perform_wipe w dw p s = Some res"
proof -
  from perform_passes_returns_when_cancelled [OF assms, of dw p 0 0 s]
  obtain e s1 where "perform_passes w dw p 0 0 s = Some (e, s1)" by force
  then show ?thesis by (cases e) (auto simp: perform_wipe_def split: option.splits)
qed

lemma wipe_device_cancel:
  assumes "cancel_from w = Some kc"
  shows "\<exists>s. wipe_device w dw path p quick_format = Some s
          \<and> (seen (trace s) \<longrightarrow>
               status (result s) = CANCELLED \<and> end_time (result s) \<noteq> None
             \<and> bytes_wiped (result s) \<le> total_bytes (result s) * passes_completed (result s)
             \<and> (\<exists>pre post. trace s = pre @ Flag_read True # post \<and> \<not> seen pre
                   \<and> writes post = []
                   \<and> (\<forall>r \<in> set (observed post). bytes_wiped r = bytes_wiped (result s))))"
proof (cases "validate_device w")
  case False
  then show ?thesis by (simp add: wipe_device_def Let_def)
next
  case True
  define s3 where "s3 = update_progress dw (assign (\<lambda>r. r\<lparr>status := IN_PROGRESS\<rparr>)
      (assign (\<lambda>r. r\<lparr>total_passes := get_pass_count p\<rparr>)
        (assign (\<lambda>r. r\<lparr>total_bytes := get_device_size w\<rparr>) (start w path p))))"
  have ns3: "\<not> seen (trace s3)" by (simp add: s3_def)
  have z3: "passes_completed (result s3) = 0" "bytes_wiped (result s3) = 0"
    by (simp_all add: s3_def)
  from perform_wipe_returns_when_cancelled [OF assms, of dw p s3]
  obtain success s4 where pw: "perform_wipe w dw p s3 = Some (success, s4)" by force
  note bd = perform_wipe_bound [OF pw z3]
  define fin where "fin = update_progress dw
                  (if success then
                     (if \<not> flag_set w (tick s4) then
                        (let s5 = set_outcome w COMPLETED (read_cancelled w s4);
                             s6 = (if verify_wipe dw
                                   then assign (\<lambda>r. r\<lparr>verification_hash :=
                                                  Some (verify_wipe_completion w)\<rparr>) s5
                                   else s5)
                         in if quick_format then
                              (case format_result w of
                                 Format_raises msg \<Rightarrow> on_exception w msg s6
                               | _ \<Rightarrow> s6)
                            else s6)
                      else cancelled_or_failed w (read_cancelled w s4))
                   else cancelled_or_failed w s4)"
  have run: "wipe_device w dw path p quick_format = Some fin"
    using True pw by (simp add: wipe_device_def Let_def s3_def fin_def)
  have "status (result fin) = CANCELLED \<and> end_time (result fin) \<noteq> None
      \<and> bytes_wiped (result fin) \<le> total_bytes (result fin) * passes_completed (result fin)
      \<and> (\<exists>pre post. trace fin = pre @ Flag_read True # post \<and> \<not> seen pre
            \<and> writes post = []
            \<and> (\<forall>r \<in> set (observed post). bytes_wiped r = bytes_wiped (result fin)))"
    if sf: "seen (trace fin)"
  proof (cases "seen (trace s4)")
    case True
    from perform_wipe_seen [OF pw ns3 True]
    obtain pre where ns: "\<not> success" and fs: "flag_set w (tick s4)"
      and tr: "trace s4 = pre @ [Flag_read True]" and np: "\<not> seen pre" by blast
    have fin: "fin = update_progress dw (cancelled_or_failed w s4)" using ns by (simp add: fin_def)
    show ?thesis using fs bd
      by (simp add: fin tr np
            exI [of _ pre])
  next
    case ns4: False
    have fs: "flag_set w (tick s4)"
    proof (rule ccontr)
      assume "\<not> flag_set w (tick s4)"
      then have "\<not> seen (trace fin)" using ns4
        by (simp add: fin_def Let_def split: format_outcome.split)
      with sf show False by simp
    qed
    then have fs': "flag_set w (Suc (tick s4))" by (rule flag_set_mono) simp
    show ?thesis
    proof (cases success)
      case True
      then have fin: "fin = update_progress dw (cancelled_or_failed w (read_cancelled w s4))"
        using fs by (simp add: fin_def)
      show ?thesis using fs fs' bd ns4
        by (simp add: fin exI [of _ "trace s4"])
    next
      case False
      then have fin: "fin = update_progress dw (cancelled_or_failed w s4)"
        by (simp add: fin_def)
      show ?thesis using fs bd ns4
        by (simp add: fin exI [of _ "trace s4"])
    qed
  qed
  with run show ?thesis by blast
qed

lemma wipe_blocks_bound_max:
  assumes "wipe_blocks w dw blk k n s = Some res"
  shows "n \<le> fst (snd res)
       \<and> bytes_wiped (result (snd (snd res))) \<le> max (bytes_wiped (result s)) (fst (snd res))"
  using assms
proof (induction rule: wipe_blocks_induct)
  case (step k n s c res)
  then show ?case by auto
qed simp_all

lemma wipe_blocks_total:
  assumes "wipe_blocks w dw blk k n s = Some res" and "length blk = block_size dw"
    and "k \<le> total_bytes (result s)"
  shows "fst (snd res) + k \<le> n + total_bytes (result s)"
  using assms
proof (induction rule: wipe_blocks_induct)
  case (step k n s c res)
  have "length c = min (block_size dw) (total_bytes (result s) - k)"
    using step by (simp add: next_chunk_length)
  with step show ?case by simp
next
  case (sync_fails k n s msg c)
  then show ?case by (simp add: next_chunk_length)
qed simp_all

lemma file_wipe_blocks_seen:
  assumes "file_wipe_blocks w dw blk k s = Some res" and "\<not> seen (trace s)"
    and "seen (trace (snd res))"
  shows "fst res = Return_False \<and> flag_set w (tick (snd res))
       \<and> (\<exists>pre. trace (snd res) = pre @ [Flag_read True] \<and> \<not> seen pre
                \<and> writes pre = writes (trace (snd res)))"
proof -
  from file_wipe_blocks_as_wipe_blocks [OF assms(1)]
  obtain n' where "wipe_blocks w dw blk k k s = Some (fst res, n', snd res)" by blast
  from wipe_blocks_seen [OF this assms(2)] assms(3) show ?thesis by simp
qed

lemma file_wipe_blocks_tick:
  assumes "file_wipe_blocks w dw blk k s = Some res"
  shows "tick s \<le> tick (snd res)"
proof -
  from file_wipe_blocks_as_wipe_blocks [OF assms]
  obtain n' where "wipe_blocks w dw blk k k s = Some (fst res, n', snd res)" by blast
  from wipe_blocks_tick [OF this] show ?thesis by simp
qed

lemma file_wipe_blocks_returns_when_cancelled:
  assumes "cancel_from w = Some kc"
  shows "\<exists>res. file_wipe_blocks w dw blk k s = Some res"
proof -
  from wipe_blocks_returns_when_cancelled [OF assms, of dw blk k k s]
  obtain res where "wipe_blocks w dw blk k k s = Some res" by blast
  from wipe_blocks_as_file_wipe_blocks [OF this refl] show ?thesis by blast
qed

text \<open>In the file loop the counter is at most the target size, once a pass has
  started.\<close>

lemma file_wipe_blocks_bound:
  assumes "file_wipe_blocks w dw blk k s = Some res" and "length blk = block_size dw"
    and "k \<le> total_bytes (result s)" and "bytes_wiped (result s) \<le> total_bytes (result s)"
  shows "bytes_wiped (result (snd res)) \<le> total_bytes (result s)"
proof -
  from file_wipe_blocks_as_wipe_blocks [OF assms(1)]
  obtain n' where wb: "wipe_blocks w dw blk k k s = Some (fst res, n', snd res)" by blast
  from wipe_blocks_bound_max [OF wb]
  have "bytes_wiped (result (snd res)) \<le> max (bytes_wiped (result s)) n'" by simp
  moreover have "n' \<le> total_bytes (result s)"
    using wipe_blocks_total [OF wb assms(2,3)] by simp
  ultimately show ?thesis using assms(4) by simp
qed

lemma file_passes_seen:
  assumes "file_passes w dw p i s = Some res" and "\<not> seen (trace s)"
    and "seen (trace (snd res))"
  shows "fst res = Returned False \<and> flag_set w (tick (snd res))
       \<and> (\<exists>pre. trace (snd res) = pre @ [Flag_read True] \<and> \<not> seen pre
                \<and> writes pre = writes (trace (snd res)))"
  using assms
proof (induction rule: file_passes_induct)
  case (cancelled i s blk)
  then show ?case by (auto intro: flag_set_mono)
next
  case (pass_cancelled i s blk s')
  from file_wipe_blocks_seen [OF pass_cancelled(4)] pass_cancelled show ?case by simp
next
  case (pass_raised i s blk msg s')
  from file_wipe_blocks_seen [OF pass_raised(4)] pass_raised show ?case by simp
next
  case (last_pass i s blk s')
  from file_wipe_blocks_seen [OF last_pass(4)] last_pass show ?case by simp
next
  case (step i s blk s' res)
  from file_wipe_blocks_seen [OF step(4)] step have "\<not> seen (trace s')" by auto
  with step show ?case by simp
qed simp_all

lemma file_pass_bound:
  assumes "file_wipe_blocks w dw blk 0 (begin_pass w i s) = Some (e, s')"
    and "get_pattern_data (entropy w) p (block_size dw) i = Some blk"
    and "bytes_wiped (result s) \<le> total_bytes (result s)"
  shows "bytes_wiped (result s') \<le> total_bytes (result s')
       \<and> passes_completed (result s') = Suc i"
proof -
  have len: "length blk = block_size dw" using assms(2) by (rule get_pattern_data_length)
  from file_wipe_blocks_bound [OF assms(1) len] file_wipe_blocks_fields [OF assms(1)] assms(3)
  show ?thesis by (simp add: same_but_progress_def)
qed

lemma file_passes_bound:
  assumes "file_passes w dw p i s = Some res"
    and "bytes_wiped (result s) \<le> total_bytes (result s)"
    and "bytes_wiped (result s) \<le> total_bytes (result s) * passes_completed (result s)"
  shows "bytes_wiped (result (snd res))
           \<le> total_bytes (result (snd res)) * passes_completed (result (snd res))"
  using assms
proof (induction rule: file_passes_induct)
  case (pass_cancelled i s blk s')
  from file_pass_bound [OF pass_cancelled(4,1,5)] show ?case by simp
next
  case (pass_raised i s blk msg s')
  from file_pass_bound [OF pass_raised(4,1,5)] show ?case by simp
next
  case (last_pass i s blk s')
  from file_pass_bound [OF last_pass(4,1,6)] show ?case by simp
next
  case (step i s blk s' res)
  from file_pass_bound [OF step(4,1,7)]
  have "bytes_wiped (result s') \<le> total_bytes (result s')"
    "bytes_wiped (result s') \<le> total_bytes (result s') * passes_completed (result s')"
    by simp_all
  then show ?case by (rule step(6))
next
  case (open_fails i s blk msg)
  have "total_bytes (result s) \<le> total_bytes (result s) * Suc i" by simp
  with open_fails(4) have "bytes_wiped (result s) \<le> total_bytes (result s) * Suc i"
    by (rule le_trans)
  then show ?case by simp
qed simp_all

lemma file_passes_returns_when_cancelled:
  assumes "cancel_from w = Some kc"
  shows "\<exists>res. file_passes w dw p i s = Some res"
proof (induction "kc - tick s" arbitrary: i s rule: less_induct)
  case less
  show ?case
  proof (cases "get_pattern_data (entropy w) p (block_size dw) i")
    case None
    then show ?thesis by (subst file_passes_unfold) simp
  next
    case (Some blk)
    show ?thesis
    proof (cases "flag_set w (tick s) \<or> open_rw_error w \<noteq> None")
      case True
      with Some show ?thesis by (subst file_passes_unfold) auto
    next
      case False
      then have lt: "tick s < kc" using assms by (simp add: flag_set_def)
      from file_wipe_blocks_returns_when_cancelled [OF assms, of dw blk 0 "begin_pass w i s"]
      obtain e s' where wb: "file_wipe_blocks w dw blk 0 (begin_pass w i s) = Some (e, s')"
        by force
      from file_wipe_blocks_tick [OF wb] have "tick s < tick s'" by simp
      with lt have "kc - tick s' < kc - tick s" by arith
      from less [OF this, of "Suc i"] show ?thesis using Some False wb
        by (subst file_passes_unfold) (cases e; simp)
    qed
  qed
qed

lemma perform_file_wipe_seen:
  assumes "perform_file_wipe w dw p s = Some (success, s')" and "\<not> seen (trace s)"
    and "seen (trace s')"
  shows "\<not> success \<and> flag_set w (tick s')
       \<and> (\<exists>pre. trace s' = pre @ [Flag_read True] \<and> \<not> seen pre \<and> writes pre = writes (trace s'))"
proof -
  from assms(1) obtain e s1 where pp: "file_passes w dw p 0 s = Some (e, s1)"
    by (auto simp: perform_file_wipe_def split: option.splits)
  show ?thesis
  proof (cases e)
    case (Returned b)
    with pp assms(1) have "s' = s1" "success = b" by (auto simp: perform_file_wipe_def)
    with file_passes_seen [OF pp assms(2)] assms(3) Returned show ?thesis by auto
  next
    case (Escaped msg)
    with pp assms(1) have s': "s' = assign (\<lambda>r. r\<lparr>error_message := Some msg\<rparr>) s1"
      by (auto simp: perform_file_wipe_def)
    with assms(3) have "seen (trace s1)" by simp
    with file_passes_seen [OF pp assms(2)] Escaped show ?thesis by simp
  qed
qed

lemma perform_file_wipe_bound:
  assumes "perform_file_wipe w dw p s = Some (success, s')"
    and "bytes_wiped (result s) = 0"
  shows "bytes_wiped (result s') \<le> total_bytes (result s') * passes_completed (result s')"
proof -
  from assms(1) obtain e s1 where pp: "file_passes w dw p 0 s = Some (e, s1)"
    by (auto simp: perform_file_wipe_def split: option.splits)
  from file_passes_bound [OF pp] assms(2)
  have "bytes_wiped (result s1) \<le> total_bytes (result s1) * passes_completed (result s1)"
    by simp
  then show ?thesis using pp assms(1)
    by (cases e) (auto simp: perform_file_wipe_def)
qed

lemma perform_file_wipe_returns_when_cancelled:
  assumes "cancel_from w = Some kc"
  shows "\<exists>res. perform_file_wipe w dw p s = Some res"
proof -
  from file_passes_returns_when_cancelled [OF assms, of dw p 0 s]
  obtain e s1 where "file_passes w dw p 0 s = Some (e, s1)" by force
  then show ?thesis by (cases e) (auto simp: perform_file_wipe_def)
qed

lemma wipe_file_cancel:
  assumes "cancel_from w = Some kc"
  shows "\<exists>s. wipe_file w dw path p remove_file = Some s
          \<and> (seen (trace s) \<longrightarrow>
               status (result s) = CANCELLED \<and> end_time (result s) \<noteq> None
             \<and> bytes_wiped (result s) \<le> total_bytes (result s) * passes_completed (result s)
             \<and> (\<exists>pre post. trace s = pre @ Flag_read True # post \<and> \<not> seen pre
                   \<and> writes post = []
                   \<and> (\<forall>r \<in> set (observed post). bytes_wiped r = bytes_wiped (result s))))"
proof (cases "\<not> path_exists w \<or> \<not> path_isfile w")
  case True
  then show ?thesis by (auto simp: wipe_file_def Let_def)
next
  case ok: False
  show ?thesis
  proof (cases "size_query w")
    case (Inl msg)
    with ok show ?thesis by (auto simp: wipe_file_def Let_def)
  next
    case (Inr file_size)
    define s3 where "s3 = update_progress dw (assign (\<lambda>r. r\<lparr>status := IN_PROGRESS\<rparr>)
        (assign (\<lambda>r. r\<lparr>total_passes := get_pass_count p\<rparr>)
          (assign (\<lambda>r. r\<lparr>total_bytes := file_size\<rparr>) (start w path p))))"
    have ns3: "\<not> seen (trace s3)" by (simp add: s3_def)
    have z3: "bytes_wiped (result s3) = 0" by (simp add: s3_def)
    from perform_file_wipe_returns_when_cancelled [OF assms, of dw p s3]
    obtain success s4 where pw: "perform_file_wipe w dw p s3 = Some (success, s4)" by force
    note bd = perform_file_wipe_bound [OF pw z3]
    define fin where "fin = update_progress dw
                       (if success then
                          (if \<not> flag_set w (tick s4) then
                             (let s5 = set_outcome w COMPLETED (read_cancelled w s4)
                              in if remove_file then
                                   (case remove_error w of
                                      Some msg \<Rightarrow> on_exception w msg s5
                                    | None \<Rightarrow> s5)
                                 else s5)
                           else cancelled_or_failed w (read_cancelled w s4))
                        else cancelled_or_failed w s4)"
    have run: "wipe_file w dw path p remove_file = Some fin"
      using ok Inr pw by (simp add: wipe_file_def Let_def s3_def fin_def)
    have "status (result fin) = CANCELLED \<and> end_time (result fin) \<noteq> None
        \<and> bytes_wiped (result fin) \<le> total_bytes (result fin) * passes_completed (result fin)
        \<and> (\<exists>pre post. trace fin = pre @ Flag_read True # post \<and> \<not> seen pre
              \<and> writes post = []
              \<and> (\<forall>r \<in> set (observed post). bytes_wiped r = bytes_wiped (result fin)))"
      if sf: "seen (trace fin)"
    proof (cases "seen (trace s4)")
      case True
      from perform_file_wipe_seen [OF pw ns3 True]
      obtain pre where ns: "\<not> success" and fs: "flag_set w (tick s4)"
        and tr: "trace s4 = pre @ [Flag_read True]" and np: "\<not> seen pre" by blast
      have fin: "fin = update_progress dw (cancelled_or_failed w s4)"
        using ns by (simp add: fin_def)
      show ?thesis using fs bd by (simp add: fin tr np exI [of _ pre])
    next
      case ns4: False
      have fs: "flag_set w (tick s4)"
      proof (rule ccontr)
        assume "\<not> flag_set w (tick s4)"
        then have "\<not> seen (trace fin)" using ns4
          by (simp add: fin_def Let_def split: option.split)
        with sf show False by simp
      qed
      then have fs': "flag_set w (Suc (tick s4))" by (rule flag_set_mono) simp
      show ?thesis
      proof (cases success)
        case True
        then have fin: "fin = update_progress dw (cancelled_or_failed w (read_cancelled w s4))"
          using fs by (simp add: fin_def)
        show ?thesis using fs fs' bd ns4 by (simp add: fin exI [of _ "trace s4"])
      next
        case False
        then have fin: "fin = update_progress dw (cancelled_or_failed w s4)"
          by (simp add: fin_def)
        show ?thesis using fs bd ns4 by (simp add: fin exI [of _ "trace s4"])
      qed
    qed
    with run show ?thesis by blast
  qed
qed

text \<open>
  Claim C5. Suppose \<open>cancel_operation\<close> has been called by some instant. Then
  \<open>wipe_device\<close> (and likewise \<open>wipe_file\<close>) returns, and if during the operation a
  read of the flag (before a pass, before a block write, or in the final status decision)
  saw it set, the result has status \<open>cancelled\<close> with \<open>end_time\<close> set and
  \<open>bytes_wiped \<le> total_bytes * passes_completed\<close>; after the first read that saw the
  flag set nothing more is written and \<open>bytes_wiped\<close> keeps its value.
\<close>

theorem cancel_yields_cancelled:
  assumes "cancel_from w = Some kc"
  shows "(\<exists>s. wipe_device w dw path p quick_format = Some s
          \<and> (seen (trace s) \<longrightarrow>
               status (result s) = CANCELLED \<and> end_time (result s) \<noteq> None
             \<and> bytes_wiped (result s) \<le> total_bytes (result s) * passes_completed (result s)
             \<and> (\<exists>pre post. trace s = pre @ Flag_read True # post \<and> \<not> seen pre
                   \<and> writes post = []
                   \<and> (\<forall>r \<in> set (observed post). bytes_wiped r = bytes_wiped (result s)))))
       \<and> (\<exists>s. wipe_file w dw path p remove_file = Some s
          \<and> (seen (trace s) \<longrightarrow>
               status (result s) = CANCELLED \<and> end_time (result s) \<noteq> None
             \<and> bytes_wiped (result s) \<le> total_bytes (result s) * passes_completed (result s)
             \<and> (\<exists>pre post. trace s = pre @ Flag_read True # post \<and> \<not> seen pre
                   \<and> writes post = []
                   \<and> (\<forall>r \<in> set (observed post). bytes_wiped r = bytes_wiped (result s)))))"
  using wipe_device_cancel [OF assms, of dw path p quick_format]
        wipe_file_cancel [OF assms, of dw path p remove_file]
  by (rule conjI)

theorem cancel_yields_cancelled_witness:
  "cancel_from cancelled_world = Some 12
   \<and> (\<exists>s. wipe_device cancelled_world sample_wiper ''f'' NIST_PURGE False = Some s
         \<and> seen (trace s) \<and> status (result s) = CANCELLED \<and> end_time (result s) \<noteq> None
         \<and> bytes_wiped (result s) \<le> total_bytes (result s) * passes_completed (result s))
   \<and> (\<exists>s. wipe_file cancelled_world sample_wiper ''f'' NIST_PURGE False = Some s
         \<and> seen (trace s) \<and> status (result s) = CANCELLED \<and> end_time (result s) \<noteq> None
         \<and> bytes_wiped (result s) \<le> total_bytes (result s) * passes_completed (result s))"
proof -
  have h: "cancel_from cancelled_world = Some 12"
    by (simp add: cancelled_world_def sample_world_def)
  note c = cancel_yields_cancelled
             [OF h, of sample_wiper "''f''" NIST_PURGE False False]
  from c obtain s where run: "wipe_device cancelled_world sample_wiper ''f'' NIST_PURGE False = Some s"
    and imp: "seen (trace s) \<longrightarrow>
               status (result s) = CANCELLED \<and> end_time (result s) \<noteq> None
             \<and> bytes_wiped (result s) \<le> total_bytes (result s) * passes_completed (result s)
             \<and> (\<exists>pre post. trace s = pre @ Flag_read True # post \<and> \<not> seen pre
                   \<and> writes post = []
                   \<and> (\<forall>r \<in> set (observed post). bytes_wiped r = bytes_wiped (result s)))"
    by blast
  from c obtain t where runf: "wipe_file cancelled_world sample_wiper ''f'' NIST_PURGE False = Some t"
    and impf: "seen (trace t) \<longrightarrow>
               status (result t) = CANCELLED \<and> end_time (result t) \<noteq> None
             \<and> bytes_wiped (result t) \<le> total_bytes (result t) * passes_completed (result t)
             \<and> (\<exists>pre post. trace t = pre @ Flag_read True # post \<and> \<not> seen pre
                   \<and> writes post = []
                   \<and> (\<forall>r \<in> set (observed post). bytes_wiped r = bytes_wiped (result t)))"
    by blast
  have "map_option seen_cancel
          (wipe_device cancelled_world sample_wiper ''f'' NIST_PURGE False) = Some True"
    by code_simp
  with run have a: "seen (trace s)" by (simp add: seen_cancel_def)
  have "map_option seen_cancel
          (wipe_file cancelled_world sample_wiper ''f'' NIST_PURGE False) = Some True"
    by code_simp
  with runf have b: "seen (trace t)" by (simp add: seen_cancel_def)
  from a b imp impf run runf h show ?thesis by blast
qed

section \<open>Status changes\<close>

lemma file_wipe_blocks_chain_any:
  assumes "file_wipe_blocks w dw blk k s = Some res"
    and "\<And>r. R r r" and "\<And>r b. R r (r\<lparr>bytes_wiped := b\<rparr>)"
    and "chain R s"
  shows "chain R (snd res)"
proof -
  from file_wipe_blocks_as_wipe_blocks [OF assms(1)]
  obtain n' where "wipe_blocks w dw blk k k s = Some (fst res, n', snd res)" by blast
  from wipe_blocks_chain_any [OF this assms(2,3,4)] show ?thesis by simp
qed

lemma perform_passes_chain_any:
  assumes "perform_passes w dw p i n s = Some res"
    and "\<And>r. R r r" and "\<And>r b. R r (r\<lparr>bytes_wiped := b\<rparr>)"
    and "\<And>r m. R r (r\<lparr>passes_completed := m\<rparr>)"
    and "chain R s"
  shows "chain R (snd res)"
  using assms(1,5)
proof (induction rule: perform_passes_induct)
  case (pass_cancelled i n s blk n' s')
  have "chain R (begin_pass w i s)" using pass_cancelled by (simp add: chain_begin_pass assms(4))
  from wipe_blocks_chain_any [OF pass_cancelled(3) assms(2,3) this] show ?case by simp
next
  case (pass_raised i n s blk msg n' s')
  have "chain R (begin_pass w i s)" using pass_raised by (simp add: chain_begin_pass assms(4))
  from wipe_blocks_chain_any [OF pass_raised(3) assms(2,3) this] show ?case by simp
next
  case (last_pass i n s blk n' s')
  have "chain R (begin_pass w i s)" using last_pass by (simp add: chain_begin_pass assms(4))
  from wipe_blocks_chain_any [OF last_pass(3) assms(2,3) this] show ?case by simp
next
  case (step i n s blk n' s' res)
  have "chain R (begin_pass w i s)" using step by (simp add: chain_begin_pass assms(4))
  from wipe_blocks_chain_any [OF step(3) assms(2,3) this] have "chain R s'" by simp
  then show ?case by (rule step(5))
qed simp_all

lemma file_passes_chain_any:
  assumes "file_passes w dw p i s = Some res"
    and "\<And>r. R r r" and "\<And>r b. R r (r\<lparr>bytes_wiped := b\<rparr>)"
    and "\<And>r m. R r (r\<lparr>passes_completed := m\<rparr>)"
    and "chain R s"
  shows "chain R (snd res)"
  using assms(1,5)
proof (induction rule: file_passes_induct)
  case (open_fails i s blk msg)
  then show ?case by (simp add: chain_begin_pass assms(4))
next
  case (pass_cancelled i s blk s')
  have "chain R (begin_pass w i s)" using pass_cancelled by (simp add: chain_begin_pass assms(4))
  from file_wipe_blocks_chain_any [OF pass_cancelled(4) assms(2,3) this] show ?case by simp
next
  case (pass_raised i s blk msg s')
  have "chain R (begin_pass w i s)" using pass_raised by (simp add: chain_begin_pass assms(4))
  from file_wipe_blocks_chain_any [OF pass_raised(4) assms(2,3) this] show ?case by simp
next
  case (last_pass i s blk s')
  have "chain R (begin_pass w i s)" using last_pass by (simp add: chain_begin_pass assms(4))
  from file_wipe_blocks_chain_any [OF last_pass(4) assms(2,3) this] show ?case by simp
next
  case (step i s blk s' res)
  have "chain R (begin_pass w i s)" using step by (simp add: chain_begin_pass assms(4))
  from file_wipe_blocks_chain_any [OF step(4) assms(2,3) this] have "chain R s'" by simp
  then show ?case by (rule step(6))
qed simp_all

lemma file_passes_fields:
  assumes "file_passes w dw p i s = Some res"
  shows "same_but_progress (result s) (result (snd res))"
  using assms
proof (induction rule: file_passes_induct)
  case (pass_cancelled i s blk s')
  from file_wipe_blocks_fields [OF this(4)] show ?case by (simp add: same_but_progress_def)
next
  case (pass_raised i s blk msg s')
  from file_wipe_blocks_fields [OF this(4)] show ?case by (simp add: same_but_progress_def)
next
  case (last_pass i s blk s')
  from file_wipe_blocks_fields [OF this(4)] show ?case by (simp add: same_but_progress_def)
next
  case (step i s blk s' res)
  from file_wipe_blocks_fields [OF this(4)] step(6) show ?case by (simp add: same_but_progress_def)
qed (simp_all add: same_but_progress_def)

text \<open>Neither \<open>_perform_wipe\<close> nor \<open>_perform_file_wipe\<close> assigns the status.\<close>

lemma perform_wipe_status:
  assumes "perform_wipe w dw p s = Some (success, s')"
    and "chain (\<lambda>r r'. status_step X (status r) (status r')) s"
  shows "chain (\<lambda>r r'. status_step X (status r) (status r')) s' \<and> status (result s') = status (result s)"
proof (cases "open_rw_error w")
  case (Some msg)
  with assms show ?thesis by (auto simp: perform_wipe_def chain_assign status_step_def)
next
  case None
  with assms(1) obtain e s1 where pp: "perform_passes w dw p 0 0 s = Some (e, s1)"
    by (auto simp: perform_wipe_def split: option.splits)
  from perform_passes_chain_any [OF pp _ _ _ assms(2)]
  have c: "chain (\<lambda>r r'. status_step X (status r) (status r')) s1"
    by (simp add: status_step_def)
  from perform_passes_fields [OF pp] have st: "status (result s1) = status (result s)"
    by (simp add: same_but_progress_def)
  show ?thesis using pp None assms(1) c st
    by (cases e) (auto simp: perform_wipe_def chain_assign status_step_def)
qed

lemma perform_file_wipe_status:
  assumes "perform_file_wipe w dw p s = Some (success, s')"
    and "chain (\<lambda>r r'. status_step X (status r) (status r')) s"
  shows "chain (\<lambda>r r'. status_step X (status r) (status r')) s' \<and> status (result s') = status (result s)"
proof -
  from assms(1) obtain e s1 where pp: "file_passes w dw p 0 s = Some (e, s1)"
    by (auto simp: perform_file_wipe_def split: option.splits)
  from file_passes_chain_any [OF pp _ _ _ assms(2)]
  have c: "chain (\<lambda>r r'. status_step X (status r) (status r')) s1"
    by (simp add: status_step_def)
  from file_passes_fields [OF pp] have st: "status (result s1) = status (result s)"
    by (simp add: same_but_progress_def)
  show ?thesis using pp assms(1) c st
    by (cases e) (auto simp: perform_file_wipe_def chain_assign status_step_def)
qed

lemma chain_status_history:
  "chain (\<lambda>r r'. status_step X (status r) (status r')) s \<Longrightarrow>
     successively (status_step X) (status_history s)"
  by (simp add: chain_def status_history_def successively_map)

lemma chain_start:
  "chain (\<lambda>r r'. status_step X (status r) (status r')) (start w path p)"
  by (simp add: chain_def)

text \<open>
  Claim C7, amended. In every run of \<open>wipe_device\<close> and of \<open>wipe_file\<close> the status
  starts as \<open>pending\<close> and each change is \<open>pending \<rightarrow> in_progress\<close>,
  \<open>pending \<rightarrow> failed\<close>, \<open>in_progress \<rightarrow> completed\<close>, \<open>in_progress \<rightarrow> failed\<close> or
  \<open>in_progress \<rightarrow> cancelled\<close>; \<open>failed\<close> and \<open>cancelled\<close> are never left, and
  \<open>completed\<close> is left (for \<open>failed\<close>) only when the quick format, respectively the file
  removal, that follows completion raises.
\<close>

theorem status_follows_transitions:
  "(wipe_device w dw path p quick_format = Some s \<longrightarrow>
      successively (status_step (quick_format \<and> format_raises w)) (status_history s))
   \<and> (wipe_file w dw path p remove_file = Some s' \<longrightarrow>
      successively (status_step (remove_file \<and> remove_error w \<noteq> None)) (status_history s'))"
proof (intro conjI impI)
  assume run: "wipe_device w dw path p quick_format = Some s"
  let ?R = "\<lambda>r r'. status_step (quick_format \<and> format_raises w) (status r) (status r')"
  have "chain ?R s"
  proof (cases "validate_device w")
    case False
    with run show ?thesis
      by (auto simp: wipe_device_def Let_def chain_def status_step_def wipe_transition_def)
  next
    case True
    define s3 where "s3 = update_progress dw (assign (\<lambda>r. r\<lparr>status := IN_PROGRESS\<rparr>)
      (assign (\<lambda>r. r\<lparr>total_passes := get_pass_count p\<rparr>)
        (assign (\<lambda>r. r\<lparr>total_bytes := get_device_size w\<rparr>) (start w path p))))"
    have c3: "chain ?R s3"
      by (simp add: s3_def chain_def status_step_def wipe_transition_def successively_append_iff)
    have st3: "status (result s3) = IN_PROGRESS" by (simp add: s3_def)
    from run True obtain success s4 where pw: "perform_wipe w dw p s3 = Some (success, s4)"
      by (auto simp: wipe_device_def Let_def s3_def split: option.splits)
    from perform_wipe_status [OF pw c3] st3
    have c4: "chain ?R s4" and st4: "status (result s4) = IN_PROGRESS" by simp_all
    have fin: "s = update_progress dw
                  (if success then
                     (if \<not> flag_set w (tick s4) then
                        (let s5 = set_outcome w COMPLETED (read_cancelled w s4);
                             s6 = (if verify_wipe dw
                                   then assign (\<lambda>r. r\<lparr>verification_hash :=
                                                  Some (verify_wipe_completion w)\<rparr>) s5
                                   else s5)
                         in if quick_format then
                              (case format_result w of
                                 Format_raises msg \<Rightarrow> on_exception w msg s6
                               | _ \<Rightarrow> s6)
                            else s6)
                      else cancelled_or_failed w (read_cancelled w s4))
                   else cancelled_or_failed w s4)"
      using run True pw by (simp add: wipe_device_def Let_def s3_def)
    show ?thesis
    proof (cases "success \<and> \<not> flag_set w (tick s4)")
      case False
      then have "s = update_progress dw (cancelled_or_failed w (read_cancelled w s4))
               \<or> s = update_progress dw (cancelled_or_failed w s4)"
        using fin by auto
      then show ?thesis using c4 st4
        by (auto simp: chain_def successively_append_iff status_step_def wipe_transition_def)
    next
      case True
      then show ?thesis using c4 st4 fin
        by (auto simp: chain_def successively_append_iff status_step_def wipe_transition_def
              Let_def format_raises_def split: format_outcome.splits)
    qed
  qed
  then show "successively (status_step (quick_format \<and> format_raises w)) (status_history s)"
    by (rule chain_status_history)
next
  assume run: "wipe_file w dw path p remove_file = Some s'"
  let ?R = "\<lambda>r r'. status_step (remove_file \<and> remove_error w \<noteq> None) (status r) (status r')"
  have "chain ?R s'"
  proof (cases "\<not> path_exists w \<or> \<not> path_isfile w")
    case True
    with run show ?thesis
      by (auto simp: wipe_file_def Let_def chain_def status_step_def wipe_transition_def)
  next
    case ok: False
    show ?thesis
    proof (cases "size_query w")
      case (Inl msg)
      with run ok show ?thesis
        by (auto simp: wipe_file_def Let_def chain_def status_step_def wipe_transition_def
              successively_append_iff)
    next
      case (Inr file_size)
      define s3 where "s3 = update_progress dw (assign (\<lambda>r. r\<lparr>status := IN_PROGRESS\<rparr>)
        (assign (\<lambda>r. r\<lparr>total_passes := get_pass_count p\<rparr>)
          (assign (\<lambda>r. r\<lparr>total_bytes := file_size\<rparr>) (start w path p))))"
      have c3: "chain ?R s3"
        by (simp add: s3_def chain_def status_step_def wipe_transition_def
              successively_append_iff)
      have st3: "status (result s3) = IN_PROGRESS" by (simp add: s3_def)
      from run ok Inr obtain success s4 where
        pw: "perform_file_wipe w dw p s3 = Some (success, s4)"
        by (auto simp: wipe_file_def Let_def s3_def split: option.splits)
      from perform_file_wipe_status [OF pw c3] st3
      have c4: "chain ?R s4" and st4: "status (result s4) = IN_PROGRESS" by simp_all
      have fin: "s' = update_progress dw
                       (if success then
                          (if \<not> flag_set w (tick s4) then
                             (let s5 = set_outcome w COMPLETED (read_cancelled w s4)
                              in if remove_file then
                                   (case remove_error w of
                                      Some msg \<Rightarrow> on_exception w msg s5
                                    | None \<Rightarrow> s5)
                                 else s5)
                           else cancelled_or_failed w (read_cancelled w s4))
                        else cancelled_or_failed w s4)"
        using run ok Inr pw by (simp add: wipe_file_def Let_def s3_def)
      show ?thesis
      proof (cases "success \<and> \<not> flag_set w (tick s4)")
        case False
        then have "s' = update_progress dw (cancelled_or_failed w (read_cancelled w s4))
                 \<or> s' = update_progress dw (cancelled_or_failed w s4)"
          using fin by auto
        then show ?thesis using c4 st4
          by (auto simp: chain_def successively_append_iff status_step_def wipe_transition_def)
      next
        case True
        then show ?thesis using c4 st4 fin
          by (auto simp: chain_def successively_append_iff status_step_def wipe_transition_def
                Let_def split: option.splits)
      qed
    qed
  qed
  then show "successively (status_step (remove_file \<and> remove_error w \<noteq> None)) (status_history s')"
    by (rule chain_status_history)
qed

theorem status_follows_transitions_witness:
  "(\<exists>s. wipe_device undeletable_world sample_wiper ''f'' ZERO_FILL False = Some s
        \<and> successively (status_step (False \<and> format_raises undeletable_world))
             (status_history s))
   \<and> (\<exists>s'. wipe_file undeletable_world sample_wiper ''f'' ZERO_FILL True = Some s'
        \<and> successively (status_step (True \<and> remove_error undeletable_world \<noteq> None))
             (status_history s'))"
proof -
  have "map_option follows_stated_machine
          (wipe_device undeletable_world sample_wiper ''f'' ZERO_FILL False) = Some True"
    by code_simp
  then obtain s where a: "wipe_device undeletable_world sample_wiper ''f'' ZERO_FILL False = Some s"
    by auto
  have "map_option follows_stated_machine
          (wipe_file undeletable_world sample_wiper ''f'' ZERO_FILL True) = Some False"
    by code_simp
  then obtain s' where b: "wipe_file undeletable_world sample_wiper ''f'' ZERO_FILL True = Some s'"
    by auto
  from status_follows_transitions
         [where w = undeletable_world and dw = sample_wiper and path = "''f''"
            and p = ZERO_FILL and quick_format = False and s = s and remove_file = True
            and s' = s'] a b
  show ?thesis by blast
qed

text \<open>On the sample file with removal refused, the status goes from \<open>completed\<close> to
  \<open>failed\<close>: the run does not follow the state machine as first stated.\<close>

theorem completed_is_overwritten_by_failed:
  "map_option follows_stated_machine
     (wipe_file undeletable_world sample_wiper ''f'' ZERO_FILL True) = Some False"
  by code_simp

section \<open>Targets that cannot be reached\<close>

lemma perform_wipe_open_fails:
  "open_rw_error w = Some msg \<Longrightarrow>
     perform_wipe w dw p s = Some (False, assign (\<lambda>r. r\<lparr>error_message := Some msg\<rparr>) s)"
  by (simp add: perform_wipe_def)

text \<open>
  Claim C8, amended. When the target does not exist or cannot be read, \<open>wipe_device\<close>
  returns (it raises nothing) a result with status \<open>failed\<close> and the message
  \<open>Invalid or inaccessible device:\<close> followed by the path, and nothing is written. When the target
  can be read but cannot be opened for writing, validation passes, the failure shows when
  \<open>_perform_wipe\<close> opens the target, and \<open>wipe_device\<close> returns a result carrying the
  message of that error, with status \<open>failed\<close> (\<open>cancelled\<close> if cancellation was requested
  meanwhile); again nothing is written.
\<close>

theorem unreachable_target_fails_without_write:
  "(\<not> validate_device w \<longrightarrow>
      (\<exists>s. wipe_device w dw path p quick_format = Some s
         \<and> status (result s) = FAILED
         \<and> error_message (result s) = Some (''Invalid or inaccessible device: '' @ path)
         \<and> writes (trace s) = []))
   \<and> (validate_device w \<longrightarrow> open_rw_error w = Some msg \<longrightarrow>
      (\<exists>s. wipe_device w dw path p quick_format = Some s
         \<and> (status (result s) = FAILED \<or> status (result s) = CANCELLED)
         \<and> (cancel_from w = None \<longrightarrow> status (result s) = FAILED)
         \<and> error_message (result s) = Some msg
         \<and> writes (trace s) = []))"
  by (simp add: wipe_device_def Let_def perform_wipe_open_fails)

theorem unreachable_target_fails_without_write_witness:
  "\<not> validate_device missing_world
   \<and> (\<exists>s. wipe_device missing_world sample_wiper ''/dev/nope'' ZERO_FILL False = Some s
         \<and> status (result s) = FAILED
         \<and> error_message (result s) = Some (''Invalid or inaccessible device: '' @ ''/dev/nope'')
         \<and> writes (trace s) = [])
   \<and> validate_device readonly_world
   \<and> open_rw_error readonly_world = Some ''[Errno 13] Permission denied''
   \<and> cancel_from readonly_world = None
   \<and> (\<exists>s. wipe_device readonly_world sample_wiper ''/dev/sdb'' ZERO_FILL False = Some s
         \<and> status (result s) = FAILED
         \<and> error_message (result s) = Some ''[Errno 13] Permission denied''
         \<and> writes (trace s) = [])"
proof -
  have a: "\<not> validate_device missing_world"
    by (simp add: validate_device_def missing_world_def sample_world_def)
  have b: "validate_device readonly_world"
    and c: "open_rw_error readonly_world = Some ''[Errno 13] Permission denied''"
    and d: "cancel_from readonly_world = None"
    by (simp_all add: validate_device_def readonly_world_def sample_world_def)
  from unreachable_target_fails_without_write
         [where w = missing_world and dw = sample_wiper and path = "''/dev/nope''"
            and p = ZERO_FILL and quick_format = False] a
  have 1: "\<exists>s. wipe_device missing_world sample_wiper ''/dev/nope'' ZERO_FILL False = Some s
         \<and> status (result s) = FAILED
         \<and> error_message (result s) = Some (''Invalid or inaccessible device: '' @ ''/dev/nope'')
         \<and> writes (trace s) = []" by blast
  from unreachable_target_fails_without_write
         [where w = readonly_world and dw = sample_wiper and path = "''/dev/sdb''"
            and p = ZERO_FILL and quick_format = False
            and msg = "''[Errno 13] Permission denied''"] b c d
  have 2: "\<exists>s. wipe_device readonly_world sample_wiper ''/dev/sdb'' ZERO_FILL False = Some s
         \<and> status (result s) = FAILED
         \<and> error_message (result s) = Some ''[Errno 13] Permission denied''
         \<and> writes (trace s) = []" by blast
  from a b c d 1 2 show ?thesis by blast
qed

text \<open>On a missing target \<open>wipe_device\<close> returns a result record, with status
  \<open>failed\<close> and \<open>end_time\<close> unset; a target that cannot be written passes validation.\<close>

theorem missing_target_returns_result:
  "map_option result (wipe_device missing_world sample_wiper ''/dev/nope'' ZERO_FILL False) =
     Some \<lparr>device_path = ''/dev/nope'', pattern = ZERO_FILL, status = FAILED,
           start_time = 0, end_time = None, bytes_wiped = 0, total_bytes = 0,
           passes_completed = 0, total_passes = 0,
           error_message = Some ''Invalid or inaccessible device: /dev/nope'',
           verification_hash = None\<rparr>
   \<and> validate_device readonly_world"
  by code_simp

section \<open>What a pass writes\<close>

lemma get_pass_count_pos: "0 < get_pass_count p"
  by (cases p) simp_all

lemma tiles_Nil [simp]: "tiles S blk []"
  by (simp add: tiles_def)

lemma tiles_single: "tiles S blk [take S blk]"
  by (simp add: tiles_def)

lemma tiles_Cons:
  assumes "cs \<noteq> []" and "tiles (S - length blk) blk cs"
  shows "tiles S blk (blk # cs)"
proof -
  obtain m where m: "length cs = Suc m" using assms(1) by (cases cs) auto
  have "butlast (blk # cs) = blk # butlast cs" using assms(1) by simp
  also have "\<dots> = replicate (length (blk # cs) - 1) blk"
    using assms(2) m by (simp add: tiles_def)
  finally have 1: "butlast (blk # cs) = replicate (length (blk # cs) - 1) blk" .
  have "S - length blk - m * length blk = S - (length blk + m * length blk)" by simp
  then have 2: "last (blk # cs) = take (S - (length (blk # cs) - 1) * length blk) blk"
    using assms m by (simp add: tiles_def)
  from 1 2 show ?thesis by (simp add: tiles_def)
qed

lemma next_chunk_cut:
  "length blk = block_size dw \<Longrightarrow>
     next_chunk dw blk k s = take (total_bytes (result s) - k) blk"
  by (auto simp: next_chunk_def Let_def min_def)

lemma next_chunk_whole:
  assumes "length blk = block_size dw"
    and "k + length (next_chunk dw blk k s) < total_bytes (result s)"
  shows "next_chunk dw blk k s = blk"
  using assms by (auto simp: next_chunk_def Let_def min_def split: if_splits)

text \<open>One run of the inner loop on a block of the block size tiles what was left of the
  target with that block.\<close>

lemma wipe_blocks_tiles:
  assumes "wipe_blocks w dw blk k n s = Some res" and len: "length blk = block_size dw"
    and "k \<le> total_bytes (result s)"
  shows "\<exists>cs. writes (trace (snd (snd res))) = writes (trace s) @ cs
            \<and> tiles (total_bytes (result s) - k) blk cs
            \<and> (\<not> k < total_bytes (result s) \<longrightarrow> cs = [])
            \<and> (fst res = Loop_done \<longrightarrow> length (concat cs) = total_bytes (result s) - k)"
  using assms(1,3)
proof (induction rule: wipe_blocks_induct)
  case (finished k n s)
  then show ?case by simp
next
  case (cancelled k n s)
  then show ?case by simp
next
  case (write_fails k n s msg)
  then show ?case by simp
next
  case (sync_fails k n s msg c)
  have "c = take (total_bytes (result s) - k) blk"
    using sync_fails(4) next_chunk_cut [OF len] by simp
  then show ?case using sync_fails(1) by (simp add: tiles_single)
next
  case (step k n s c res)
  let ?S = "total_bytes (result s)"
  have cut: "c = take (?S - k) blk" using step(4) next_chunk_cut [OF len] by simp
  have lc: "length c = min (block_size dw) (?S - k)"
    using step(4) next_chunk_length [OF len] by simp
  then have k': "k + length c \<le> total_bytes (result (after_write w dw c (n + length c) s))"
    using step(1) by simp
  from step(5) [OF k']
  obtain cs where ws: "writes (trace (snd (snd res))) =
        writes (trace (after_write w dw c (n + length c) s)) @ cs"
    and tl: "tiles (?S - (k + length c)) blk cs"
    and em: "\<not> k + length c < ?S \<longrightarrow> cs = []"
    and dn: "fst res = Loop_done \<longrightarrow> length (concat cs) = ?S - (k + length c)"
    by auto
  have w: "writes (trace (snd (snd res))) = writes (trace s) @ (c # cs)"
    using ws by simp
  have t: "tiles (?S - k) blk (c # cs)"
  proof (cases "cs = []")
    case True
    then show ?thesis using cut by (simp add: tiles_single)
  next
    case False
    with em have lt: "k + length c < ?S" by blast
    with step(4) have whole: "c = blk" using next_chunk_whole [OF len] by simp
    from tl whole have "tiles (?S - k - length blk) blk cs" by simp
    from tiles_Cons [OF False this] whole show ?thesis by simp
  qed
  have d: "fst res = Loop_done \<longrightarrow> length (concat (c # cs)) = ?S - k"
    using dn lc step(1) by auto
  from w t d step(1) show ?case by blast
qed

lemma file_wipe_blocks_tiles:
  assumes "file_wipe_blocks w dw blk k s = Some res" and len: "length blk = block_size dw"
    and "k \<le> total_bytes (result s)"
  shows "\<exists>cs. writes (trace (snd res)) = writes (trace s) @ cs
            \<and> tiles (total_bytes (result s) - k) blk cs
            \<and> (fst res = Loop_done \<longrightarrow> length (concat cs) = total_bytes (result s) - k)"
proof -
  from file_wipe_blocks_as_wipe_blocks [OF assms(1)]
  obtain n' where "wipe_blocks w dw blk k k s = Some (fst res, n', snd res)" by blast
  from wipe_blocks_tiles [OF this len assms(3)] show ?thesis by auto
qed

lemma stamped_append:
  "stamped pn (es @ es') = stamped pn es @ stamped (counter_after pn es) es'"
proof (induction es arbitrary: pn)
  case Nil
  show ?case by simp
next
  case (Cons e es)
  then show ?case by (cases e) simp_all
qed

lemma counter_after_append:
  "counter_after pn (es @ es') = counter_after (counter_after pn es) es'"
proof (induction es arbitrary: pn)
  case Nil
  show ?case by simp
next
  case (Cons e es)
  then show ?case by (cases e) simp_all
qed

lemma map_snd_stamped: "map snd (stamped pn es) = writes es"
proof (induction es arbitrary: pn)
  case Nil
  show ?case by simp
next
  case (Cons e es)
  then show ?case by (cases e) simp_all
qed

lemma writes_stamps: "writes (trace s) = map snd (stamps s)"
  by (simp add: stamps_def map_snd_stamped)

lemma stamps_simps [simp]:
  "stamps (read_cancelled w s) = stamps s"
  "stamps (assign f s) = stamps s"
  "stamps (update_progress dw s) = stamps s"
  "stamps (emit (Wrote c) s) = stamps s @ [(counter_after 0 (trace s), c)]"
  by (simp_all add: stamps_def stamped_append)

lemma synced_simps [simp]:
  "synced (read_cancelled w s) = synced s"
  "synced (assign f s)"
  "synced (update_progress dw s) = synced s"
  "synced (emit (Wrote c) s) = synced s"
  by (simp_all add: synced_def counter_after_append)

lemma after_write_stamps:
  assumes "synced s"
  shows "stamps (after_write w dw c b s) = stamps s @ [(passes_completed (result s), c)]"
    and "synced (after_write w dw c b s)"
    and "passes_completed (result (after_write w dw c b s)) = passes_completed (result s)"
  using assms by (simp_all add: after_write_def synced_def counter_after_append)

lemma begin_pass_stamps [simp]:
  "stamps (begin_pass w i s) = stamps s"
  "synced (begin_pass w i s)"
  "passes_completed (result (begin_pass w i s)) = Suc i"
  by (simp_all add: begin_pass_def)

text \<open>The inner loop leaves the pass counter alone, so all its chunks get the stamp of
  the pass that runs it.\<close>

lemma wipe_blocks_stamps:
  assumes "wipe_blocks w dw blk k n s = Some res" and "synced s"
  shows "synced (snd (snd res))
         \<and> passes_completed (result (snd (snd res))) = passes_completed (result s)
         \<and> (\<exists>cs. stamps (snd (snd res)) = stamps s @ map (Pair (passes_completed (result s))) cs)"
  using assms
proof (induction rule: wipe_blocks_induct)
  case (finished k n s)
  then show ?case by simp
next
  case (cancelled k n s)
  then show ?case by simp
next
  case (write_fails k n s msg)
  then show ?case by simp
next
  case (sync_fails k n s msg c)
  from after_write_stamps [OF sync_fails(5), of w dw c "n + length c"]
  show ?case by (auto intro: exI [of _ "[c]"])
next
  case (step k n s c res)
  note aw = after_write_stamps [OF step(6), of w dw c "n + length c"]
  from step(5) [OF aw(2)] aw obtain cs where
    "synced (snd (snd res))"
    "passes_completed (result (snd (snd res))) = passes_completed (result s)"
    "stamps (snd (snd res))
       = (stamps s @ [(passes_completed (result s), c)]) @ map (Pair (passes_completed (result s))) cs"
    by auto
  then show ?case by (auto intro: exI [of _ "c # cs"])
qed

lemma file_wipe_blocks_stamps:
  assumes "file_wipe_blocks w dw blk k s = Some res" and "synced s"
  shows "synced (snd res)
         \<and> passes_completed (result (snd res)) = passes_completed (result s)
         \<and> (\<exists>cs. stamps (snd res) = stamps s @ map (Pair (passes_completed (result s))) cs)"
proof -
  from file_wipe_blocks_as_wipe_blocks [OF assms(1)]
  obtain m where "wipe_blocks w dw blk k k s = Some (fst res, m, snd res)" by auto
  from wipe_blocks_stamps [OF this assms(2)] show ?thesis by simp
qed

text \<open>The chunks of one pass, with the tiling and the stamps together.\<close>

lemma pass_stamps:
  assumes "wipe_blocks w dw blk 0 n (begin_pass w i s) = Some (e, n', s')"
    and "get_pattern_data (entropy w) p (block_size dw) i = Some blk"
  shows "\<exists>cs. writes (trace s') = writes (trace s) @ cs
            \<and> tiles (total_bytes (result s)) blk cs
            \<and> (e = Loop_done \<longrightarrow> length (concat cs) = total_bytes (result s))
            \<and> stamps s' = stamps s @ map (Pair (Suc i)) cs
            \<and> passes_completed (result s') = Suc i"
proof -
  have len: "length blk = block_size dw" using assms(2) by (rule get_pattern_data_length)
  from wipe_blocks_tiles [OF assms(1) len] obtain cs where
    ws: "writes (trace s') = writes (trace s) @ cs"
    and tl: "tiles (total_bytes (result s)) blk cs"
    and full: "e = Loop_done \<longrightarrow> length (concat cs) = total_bytes (result s)"
    by (auto simp: begin_pass_def)
  from wipe_blocks_stamps [OF assms(1)] obtain cs' where
    st: "stamps s' = stamps s @ map (Pair (Suc i)) cs'"
    and pc: "passes_completed (result s') = Suc i" by auto
  from st have "map snd (stamps s') = map snd (stamps s) @ cs'" by (simp add: o_def)
  with ws have "cs' = cs" by (simp add: writes_stamps)
  with ws tl full st pc show ?thesis by blast
qed

lemma file_pass_stamps:
  assumes "file_wipe_blocks w dw blk 0 (begin_pass w i s) = Some (e, s')"
    and "get_pattern_data (entropy w) p (block_size dw) i = Some blk"
  shows "\<exists>cs. writes (trace s') = writes (trace s) @ cs
            \<and> tiles (total_bytes (result s)) blk cs
            \<and> (e = Loop_done \<longrightarrow> length (concat cs) = total_bytes (result s))
            \<and> stamps s' = stamps s @ map (Pair (Suc i)) cs
            \<and> passes_completed (result s') = Suc i"
proof -
  from file_wipe_blocks_as_wipe_blocks [OF assms(1)]
  obtain m where "wipe_blocks w dw blk 0 0 (begin_pass w i s) = Some (e, m, s')" by auto
  from pass_stamps [OF this assms(2)] show ?thesis .
qed

lemma chunks_of_tag_from:
  "map snd (filter (\<lambda>x. fst x = m) (tag_from i css))
     = (if i \<le> m \<and> m < i + length css then css ! (m - i) else [])"
proof (induction css arbitrary: i)
  case Nil
  show ?case by auto
next
  case (Cons cs css)
  have here: "map snd (filter (\<lambda>x. fst x = m) (map (Pair i) cs)) = (if m = i then cs else [])"
    by (induction cs) auto
  show ?case
  proof (cases "m = i")
    case True
    then show ?thesis using Cons [of "Suc i"] here by simp
  next
    case False
    show ?thesis
    proof (cases "i < m")
      case True
      then obtain d where d: "m - i = Suc d" and d': "m - Suc i = d"
        by (cases "m - i") auto
      show ?thesis using Cons [of "Suc i"] here False True d d' by auto
    next
      case False
      then show ?thesis using Cons [of "Suc i"] here \<open>m \<noteq> i\<close> by auto
    qed
  qed
qed

text \<open>When the stamps of a run are those of the chunk lists \<open>css\<close> numbered from 1 and
  the pass counter stands at their number, the chunk lists of the passes are \<open>css\<close>.\<close>

lemma pass_chunks_tag_from:
  assumes "stamps s = tag_from 1 css" and "passes_completed (result s) = length css"
  shows "pass_chunks s = css"
proof -
  have "pass_chunks s = map (\<lambda>j. css ! j) [0..<length css]"
    using assms by (simp add: pass_chunks_def chunks_in_pass_def stamps_def chunks_of_tag_from)
  then show ?thesis by (simp add: map_nth)
qed

lemma pass_pieces_Nil [simp]: "pass_pieces gen S i []"
  by (simp add: pass_pieces_def)

lemma pass_pieces_single: "gen i = Some blk \<Longrightarrow> tiles S blk cs \<Longrightarrow> pass_pieces gen S i [cs]"
  by (simp add: pass_pieces_def)

lemma pass_pieces_Cons:
  assumes "gen i = Some blk" and "tiles S blk cs" and "length (concat cs) = S"
    and "pass_pieces gen S (Suc i) css"
  shows "pass_pieces gen S i (cs # css)"
  unfolding pass_pieces_def
proof (intro allI impI)
  fix j assume j: "j < length (cs # css)"
  show "\<exists>blk. gen (i + j) = Some blk \<and> tiles S blk ((cs # css) ! j)
          \<and> (Suc j < length (cs # css) \<longrightarrow> length (concat ((cs # css) ! j)) = S)"
  proof (cases j)
    case 0
    with assms(1,2,3) show ?thesis by simp
  next
    case (Suc m)
    with j have "m < length css" by simp
    with assms(4) obtain b where "gen (Suc i + m) = Some b" "tiles S b (css ! m)"
      "Suc m < length css \<longrightarrow> length (concat (css ! m)) = S"
      by (auto simp: pass_pieces_def)
    with Suc show ?thesis by simp
  qed
qed

lemma perform_passes_tiles:
  assumes "perform_passes w dw p i n s = Some res"
  shows "\<exists>css. writes (trace (snd res)) = writes (trace s) @ concat css
            \<and> (i < total_passes (result s) \<longrightarrow> i + length css \<le> total_passes (result s))
            \<and> pass_pieces (get_pattern_data (entropy w) p (block_size dw))
                 (total_bytes (result s)) i css
            \<and> stamps (snd res) = stamps s @ tag_from (Suc i) css
            \<and> passes_completed (result (snd res))
                = (if css = [] then passes_completed (result s) else i + length css)"
  using assms
proof (induction rule: perform_passes_induct)
  case (exhausted i n s)
  show ?case by (intro exI [of _ "[]"]) simp
next
  case (cancelled i n s blk)
  show ?case by (intro exI [of _ "[]"]) simp
next
  case (pass_cancelled i n s blk n' s')
  from pass_stamps [OF pass_cancelled(3,1)] obtain cs where
    "writes (trace s') = writes (trace s) @ cs" "tiles (total_bytes (result s)) blk cs"
    "stamps s' = stamps s @ map (Pair (Suc i)) cs" "passes_completed (result s') = Suc i"
    by blast
  then show ?case using pass_cancelled(1)
    by (intro exI [of _ "[cs]"]) (simp add: pass_pieces_single
          [where gen = "get_pattern_data (entropy w) p (block_size dw)"])
next
  case (pass_raised i n s blk msg n' s')
  from pass_stamps [OF pass_raised(3,1)] obtain cs where
    "writes (trace s') = writes (trace s) @ cs" "tiles (total_bytes (result s)) blk cs"
    "stamps s' = stamps s @ map (Pair (Suc i)) cs" "passes_completed (result s') = Suc i"
    by blast
  then show ?case using pass_raised(1)
    by (intro exI [of _ "[cs]"]) (simp add: pass_pieces_single
          [where gen = "get_pattern_data (entropy w) p (block_size dw)"])
next
  case (last_pass i n s blk n' s')
  from pass_stamps [OF last_pass(3,1)] obtain cs where
    "writes (trace s') = writes (trace s) @ cs" "tiles (total_bytes (result s)) blk cs"
    "stamps s' = stamps s @ map (Pair (Suc i)) cs" "passes_completed (result s') = Suc i"
    by blast
  then show ?case using last_pass(1)
    by (intro exI [of _ "[cs]"]) (simp add: pass_pieces_single
          [where gen = "get_pattern_data (entropy w) p (block_size dw)"])
next
  case (step i n s blk n' s' res)
  from pass_stamps [OF step(3,1)] obtain cs where
    ws: "writes (trace s') = writes (trace s) @ cs"
    and tl: "tiles (total_bytes (result s)) blk cs"
    and full: "length (concat cs) = total_bytes (result s)"
    and st: "stamps s' = stamps s @ map (Pair (Suc i)) cs"
    and pc: "passes_completed (result s') = Suc i" by blast
  from wipe_blocks_fields [OF step(3)]
  have tb: "total_bytes (result s') = total_bytes (result s)"
    and tp: "total_passes (result s') = total_passes (result s)"
    by (simp_all add: same_but_progress_def)
  from step(5) obtain css where
    ws': "writes (trace (snd res)) = writes (trace s') @ concat css"
    and bd: "Suc i < total_passes (result s') \<longrightarrow> Suc i + length css \<le> total_passes (result s')"
    and pp: "pass_pieces (get_pattern_data (entropy w) p (block_size dw))
                 (total_bytes (result s')) (Suc i) css"
    and st': "stamps (snd res) = stamps s' @ tag_from (Suc (Suc i)) css"
    and pc': "passes_completed (result (snd res))
                = (if css = [] then passes_completed (result s') else Suc i + length css)"
    by blast
  have "pass_pieces (get_pattern_data (entropy w) p (block_size dw))
                 (total_bytes (result s)) i (cs # css)"
    using pass_pieces_Cons [where gen = "get_pattern_data (entropy w) p (block_size dw)"
                              and i = i, OF step(1) tl full] pp tb by simp
  moreover have "writes (trace (snd res)) = writes (trace s) @ concat (cs # css)"
    using ws ws' by simp
  moreover have "i < total_passes (result s) \<longrightarrow>
                   i + length (cs # css) \<le> total_passes (result s)"
    using bd tp step(4) by simp
  moreover have "stamps (snd res) = stamps s @ tag_from (Suc i) (cs # css)"
    using st st' by simp
  moreover have "passes_completed (result (snd res))
                   = (if cs # css = [] then passes_completed (result s)
                      else i + length (cs # css))"
    using pc pc' by simp
  ultimately show ?case by blast
qed

lemma file_passes_tiles:
  assumes "file_passes w dw p i s = Some res"
  shows "\<exists>css. writes (trace (snd res)) = writes (trace s) @ concat css
            \<and> (i < total_passes (result s) \<longrightarrow> i + length css \<le> total_passes (result s))
            \<and> pass_pieces (get_pattern_data (entropy w) p (block_size dw))
                 (total_bytes (result s)) i css
            \<and> stamps (snd res) = stamps s @ tag_from (Suc i) css
            \<and> passes_completed (result (snd res))
                = (if css = [] then passes_completed (result s) else i + length css)"
  using assms
proof (induction rule: file_passes_induct)
  case (exhausted i s)
  show ?case by (intro exI [of _ "[]"]) simp
next
  case (cancelled i s blk)
  show ?case by (intro exI [of _ "[]"]) simp
next
  case (open_fails i s blk msg)
  have "tiles (total_bytes (result s)) blk []" by simp
  from pass_pieces_single [where gen = "get_pattern_data (entropy w) p (block_size dw)"
                             and i = i, OF open_fails(1) this]
  show ?case by (intro exI [of _ "[[]]"]) (simp add: begin_pass_def)
next
  case (pass_cancelled i s blk s')
  from file_pass_stamps [OF pass_cancelled(4,1)] obtain cs where
    "writes (trace s') = writes (trace s) @ cs" "tiles (total_bytes (result s)) blk cs"
    "stamps s' = stamps s @ map (Pair (Suc i)) cs" "passes_completed (result s') = Suc i"
    by blast
  then show ?case using pass_cancelled(1)
    by (intro exI [of _ "[cs]"]) (simp add: pass_pieces_single
          [where gen = "get_pattern_data (entropy w) p (block_size dw)"])
next
  case (pass_raised i s blk msg s')
  from file_pass_stamps [OF pass_raised(4,1)] obtain cs where
    "writes (trace s') = writes (trace s) @ cs" "tiles (total_bytes (result s)) blk cs"
    "stamps s' = stamps s @ map (Pair (Suc i)) cs" "passes_completed (result s') = Suc i"
    by blast
  then show ?case using pass_raised(1)
    by (intro exI [of _ "[cs]"]) (simp add: pass_pieces_single
          [where gen = "get_pattern_data (entropy w) p (block_size dw)"])
next
  case (last_pass i s blk s')
  from file_pass_stamps [OF last_pass(4,1)] obtain cs where
    "writes (trace s') = writes (trace s) @ cs" "tiles (total_bytes (result s)) blk cs"
    "stamps s' = stamps s @ map (Pair (Suc i)) cs" "passes_completed (result s') = Suc i"
    by blast
  then show ?case using last_pass(1)
    by (intro exI [of _ "[cs]"]) (simp add: pass_pieces_single
          [where gen = "get_pattern_data (entropy w) p (block_size dw)"])
next
  case (step i s blk s' res)
  from file_pass_stamps [OF step(4,1)] obtain cs where
    ws: "writes (trace s') = writes (trace s) @ cs"
    and tl: "tiles (total_bytes (result s)) blk cs"
    and full: "length (concat cs) = total_bytes (result s)"
    and st: "stamps s' = stamps s @ map (Pair (Suc i)) cs"
    and pc: "passes_completed (result s') = Suc i" by blast
  from file_wipe_blocks_fields [OF step(4)]
  have tb: "total_bytes (result s') = total_bytes (result s)"
    and tp: "total_passes (result s') = total_passes (result s)"
    by (simp_all add: same_but_progress_def)
  from step(6) obtain css where
    ws': "writes (trace (snd res)) = writes (trace s') @ concat css"
    and bd: "Suc i < total_passes (result s') \<longrightarrow> Suc i + length css \<le> total_passes (result s')"
    and pp: "pass_pieces (get_pattern_data (entropy w) p (block_size dw))
                 (total_bytes (result s')) (Suc i) css"
    and st': "stamps (snd res) = stamps s' @ tag_from (Suc (Suc i)) css"
    and pc': "passes_completed (result (snd res))
                = (if css = [] then passes_completed (result s') else Suc i + length css)"
    by blast
  have "pass_pieces (get_pattern_data (entropy w) p (block_size dw))
                 (total_bytes (result s)) i (cs # css)"
    using pass_pieces_Cons [where gen = "get_pattern_data (entropy w) p (block_size dw)"
                              and i = i, OF step(1) tl full] pp tb by simp
  moreover have "writes (trace (snd res)) = writes (trace s) @ concat (cs # css)"
    using ws ws' by simp
  moreover have "i < total_passes (result s) \<longrightarrow>
                   i + length (cs # css) \<le> total_passes (result s)"
    using bd tp step(5) by simp
  moreover have "stamps (snd res) = stamps s @ tag_from (Suc i) (cs # css)"
    using st st' by simp
  moreover have "passes_completed (result (snd res))
                   = (if cs # css = [] then passes_completed (result s)
                      else i + length (cs # css))"
    using pc pc' by simp
  ultimately show ?case by blast
qed

lemma stamps_outcome_simps [simp]:
  "stamps (start w path p) = []"
  "stamps (set_outcome w st s) = stamps s"
  "stamps (on_exception w msg s) = stamps s"
  "stamps (cancelled_or_failed w s) = stamps s"
  by (simp_all add: stamps_def stamped_append)

text \<open>A run that wrote the chunk lists \<open>css\<close>, pass after pass, and whose pass counter
  stands at their number.\<close>

lemma pass_chunks_run:
  assumes "stamps fin = tag_from 1 css" and "passes_completed (result fin) = length css"
  shows "pass_chunks fin = css \<and> writes (trace fin) = concat css"
proof -
  have "map snd (tag_from i css) = concat css" for i
    by (induction css arbitrary: i) (simp_all add: o_def)
  with assms(1) have "writes (trace fin) = concat css" by (simp add: writes_stamps)
  with pass_chunks_tag_from [OF assms] show ?thesis by simp
qed

lemma wipe_device_tiles:
  assumes run: "wipe_device w dw path p quick_format = Some fin"
  shows "writes (trace fin) = concat (pass_chunks fin)
         \<and> passes_completed (result fin) \<le> get_pass_count p
         \<and> pass_pieces (get_pattern_data (entropy w) p (block_size dw))
              (total_bytes (result fin)) 0 (pass_chunks fin)"
proof -
  have "\<exists>css. stamps fin = tag_from 1 css \<and> passes_completed (result fin) = length css
          \<and> length css \<le> get_pass_count p
          \<and> pass_pieces (get_pattern_data (entropy w) p (block_size dw))
               (total_bytes (result fin)) 0 css"
  proof (cases "validate_device w")
    case False
    with run have "stamps fin = []" "passes_completed (result fin) = 0"
      by (auto simp: wipe_device_def Let_def)
    then show ?thesis by (intro exI [of _ "[]"]) simp
  next
    case True
    define s3 where "s3 = update_progress dw (assign (\<lambda>r. r\<lparr>status := IN_PROGRESS\<rparr>)
        (assign (\<lambda>r. r\<lparr>total_passes := get_pass_count p\<rparr>)
          (assign (\<lambda>r. r\<lparr>total_bytes := get_device_size w\<rparr>) (start w path p))))"
    have w3: "stamps s3 = []" and tp3: "total_passes (result s3) = get_pass_count p"
      and pc3: "passes_completed (result s3) = 0"
      by (simp_all add: s3_def)
    from run True obtain success s4' where pw: "perform_wipe w dw p s3 = Some (success, s4')"
      by (auto simp: wipe_device_def Let_def s3_def split: option.splits)
    have wf: "stamps fin = stamps s4'"
      and tf: "total_bytes (result fin) = total_bytes (result s4')"
      and pf: "passes_completed (result fin) = passes_completed (result s4')"
      using run True pw
      by (auto simp: wipe_device_def Let_def s3_def split: format_outcome.splits if_splits)
    show ?thesis
    proof (cases "open_rw_error w")
      case (Some msg)
      with pw have "stamps s4' = stamps s3"
        "passes_completed (result s4') = passes_completed (result s3)"
        by (auto simp: perform_wipe_def)
      with wf pf w3 pc3 show ?thesis by (intro exI [of _ "[]"]) simp
    next
      case None
      with pw obtain e s4 where pp: "perform_passes w dw p 0 0 s3 = Some (e, s4)"
        and w4: "stamps s4' = stamps s4"
        and t4: "total_bytes (result s4') = total_bytes (result s4)"
        and p4: "passes_completed (result s4') = passes_completed (result s4)"
        by (auto simp: perform_wipe_def split: option.splits passes_exit.splits)
      from perform_passes_fields [OF pp]
      have t3: "total_bytes (result s4) = total_bytes (result s3)"
        by (simp add: same_but_progress_def)
      from perform_passes_tiles [OF pp] obtain css where
        "0 < total_passes (result s3) \<longrightarrow> 0 + length css \<le> total_passes (result s3)"
        "pass_pieces (get_pattern_data (entropy w) p (block_size dw))
           (total_bytes (result s3)) 0 css"
        "stamps s4 = stamps s3 @ tag_from (Suc 0) css"
        "passes_completed (result s4)
           = (if css = [] then passes_completed (result s3) else 0 + length css)"
        by auto
      then show ?thesis using w3 tp3 pc3 wf tf pf w4 t4 p4 t3 get_pass_count_pos [of p]
        by (intro exI [of _ css]) auto
    qed
  qed
  then obtain css where st: "stamps fin = tag_from 1 css"
    and pc: "passes_completed (result fin) = length css"
    and le: "length css \<le> get_pass_count p"
    and pp: "pass_pieces (get_pattern_data (entropy w) p (block_size dw))
               (total_bytes (result fin)) 0 css" by blast
  from pass_chunks_run [OF st pc] pc le pp show ?thesis by simp
qed

lemma wipe_file_tiles:
  assumes run: "wipe_file w dw path p remove_file = Some fin"
  shows "writes (trace fin) = concat (pass_chunks fin)
         \<and> passes_completed (result fin) \<le> get_pass_count p
         \<and> pass_pieces (get_pattern_data (entropy w) p (block_size dw))
              (total_bytes (result fin)) 0 (pass_chunks fin)"
proof -
  have "\<exists>css. stamps fin = tag_from 1 css \<and> passes_completed (result fin) = length css
          \<and> length css \<le> get_pass_count p
          \<and> pass_pieces (get_pattern_data (entropy w) p (block_size dw))
               (total_bytes (result fin)) 0 css"
  proof (cases "\<not> path_exists w \<or> \<not> path_isfile w")
    case True
    with run have "stamps fin = []" "passes_completed (result fin) = 0"
      by (auto simp: wipe_file_def Let_def)
    then show ?thesis by (intro exI [of _ "[]"]) simp
  next
    case ok: False
    show ?thesis
    proof (cases "size_query w")
      case (Inl msg)
      with run ok have "stamps fin = []" "passes_completed (result fin) = 0"
        by (auto simp: wipe_file_def Let_def)
      then show ?thesis by (intro exI [of _ "[]"]) simp
    next
      case (Inr file_size)
      define s3 where "s3 = update_progress dw (assign (\<lambda>r. r\<lparr>status := IN_PROGRESS\<rparr>)
          (assign (\<lambda>r. r\<lparr>total_passes := get_pass_count p\<rparr>)
            (assign (\<lambda>r. r\<lparr>total_bytes := file_size\<rparr>) (start w path p))))"
      have w3: "stamps s3 = []" and tp3: "total_passes (result s3) = get_pass_count p"
        and pc3: "passes_completed (result s3) = 0"
        by (simp_all add: s3_def)
      from run ok Inr obtain success s4' where
        pw: "perform_file_wipe w dw p s3 = Some (success, s4')"
        by (auto simp: wipe_file_def Let_def s3_def split: option.splits)
      then obtain e s4 where pp: "file_passes w dw p 0 s3 = Some (e, s4)"
        and w4: "stamps s4' = stamps s4"
        and t4: "total_bytes (result s4') = total_bytes (result s4)"
        and p4: "passes_completed (result s4') = passes_completed (result s4)"
        by (auto simp: perform_file_wipe_def split: option.splits passes_exit.splits)
      have wf: "stamps fin = stamps s4'"
        and tf: "total_bytes (result fin) = total_bytes (result s4')"
        and pf: "passes_completed (result fin) = passes_completed (result s4')"
        using run ok Inr pw
        by (auto simp: wipe_file_def Let_def s3_def split: option.splits if_splits)
      from file_passes_fields [OF pp]
      have t3: "total_bytes (result s4) = total_bytes (result s3)"
        by (simp add: same_but_progress_def)
      from file_passes_tiles [OF pp] obtain css where
        "0 < total_passes (result s3) \<longrightarrow> 0 + length css \<le> total_passes (result s3)"
        "pass_pieces (get_pattern_data (entropy w) p (block_size dw))
           (total_bytes (result s3)) 0 css"
        "stamps s4 = stamps s3 @ tag_from (Suc 0) css"
        "passes_completed (result s4)
           = (if css = [] then passes_completed (result s3) else 0 + length css)"
        by auto
      then show ?thesis using w3 tp3 pc3 wf tf pf w4 t4 p4 t3 get_pass_count_pos [of p]
        by (intro exI [of _ css]) auto
    qed
  qed
  then obtain css where st: "stamps fin = tag_from 1 css"
    and pc: "passes_completed (result fin) = length css"
    and le: "length css \<le> get_pass_count p"
    and pp: "pass_pieces (get_pattern_data (entropy w) p (block_size dw))
               (total_bytes (result fin)) 0 css" by blast
  from pass_chunks_run [OF st pc] pc le pp show ?thesis by simp
qed

lemma random_pass_block:
  "random_pass p j \<Longrightarrow>
     get_pattern_data ent p B j = Some (token_bytes ent j B)"
  by (cases p)
     (auto simp: random_fill_def nist_clear_def dod_3_pass_def nist_purge_def
        dod_7_pass_def dod_7_patterns_def)

text \<open>The chunk lists of the passes of a run, one by one.\<close>

lemma pass_pieces_of_run:
  assumes pp: "pass_pieces (get_pattern_data (entropy w) p (block_size dw))
                 (total_bytes (result fin)) 0 (pass_chunks fin)"
    and j: "j < passes_completed (result fin)"
  shows "\<exists>blk. get_pattern_data (entropy w) p (block_size dw) j = Some blk
            \<and> length blk = block_size dw
            \<and> tiles (total_bytes (result fin)) blk (chunks_in_pass (Suc j) (trace fin))
            \<and> (Suc j < passes_completed (result fin) \<longrightarrow>
                  length (concat (chunks_in_pass (Suc j) (trace fin)))
                    = total_bytes (result fin))
            \<and> (random_pass p j \<longrightarrow> blk = token_bytes (entropy w) j (block_size dw))"
proof -
  have len: "length (pass_chunks fin) = passes_completed (result fin)"
    by (simp add: pass_chunks_def)
  have nth: "pass_chunks fin ! j = chunks_in_pass (Suc j) (trace fin)"
    using j by (simp add: pass_chunks_def)
  from pp j len obtain blk where
    g: "get_pattern_data (entropy w) p (block_size dw) j = Some blk"
    and t: "tiles (total_bytes (result fin)) blk (pass_chunks fin ! j)"
    and f: "Suc j < length (pass_chunks fin) \<longrightarrow>
              length (concat (pass_chunks fin ! j)) = total_bytes (result fin)"
    by (auto simp: pass_pieces_def)
  have "length blk = block_size dw" using g by (rule get_pattern_data_length)
  moreover have "random_pass p j \<longrightarrow> blk = token_bytes (entropy w) j (block_size dw)"
    using g random_pass_block [of p j "entropy w" "block_size dw"] by auto
  ultimately show ?thesis using g t f len nth by simp
qed

text \<open>A run of a scheme with one pass, all of whose blocks are random.\<close>

lemma single_random_pass_tiles:
  assumes p: "p = RANDOM \<or> p = NIST_CLEAR"
    and ws: "writes (trace fin) = concat (pass_chunks fin)"
    and le: "passes_completed (result fin) \<le> get_pass_count p"
    and pp: "pass_pieces (get_pattern_data (entropy w) p (block_size dw))
                 (total_bytes (result fin)) 0 (pass_chunks fin)"
  shows "tiles (total_bytes (result fin)) (token_bytes (entropy w) 0 (block_size dw))
           (writes (trace fin))"
proof (cases "passes_completed (result fin) = 0")
  case True
  with ws show ?thesis by (simp add: pass_chunks_def)
next
  case False
  with le p have one: "passes_completed (result fin) = Suc 0" by auto
  then have pc: "pass_chunks fin = [chunks_in_pass (Suc 0) (trace fin)]"
    by (simp add: pass_chunks_def)
  from pass_pieces_of_run [OF pp, of 0] one p
  have "tiles (total_bytes (result fin)) (token_bytes (entropy w) 0 (block_size dw))
          (chunks_in_pass (Suc 0) (trace fin))" by auto
  with ws pc show ?thesis by simp
qed

text \<open>
  Claim C10. The chunks that an operation writes are taken pass by pass: the chunks of
  pass \<open>j + 1\<close> are those written while \<open>result.passes_completed\<close> was \<open>j + 1\<close>. For
  \<open>wipe_device\<close> and for \<open>wipe_file\<close>, every written chunk belongs to one of the passes
  that were begun, in order, and within each of them the chunks tile the target with the
  one block that the pattern generator yielded for that pass, the block at index \<open>j\<close>:
  every chunk but the last is that whole block, and the last is the block cut to the bytes
  that were left; a pass that was followed by another covers the whole target. Where the
  block of the pass is random, it is the value of the single call of
  \<open>secrets.token_bytes\<close> made for the pass, so all the chunks of the pass repeat that one
  block of \<open>block_size\<close> bytes. With the schemes \<open>random\<close> and \<open>nist_clear\<close>, which have
  one pass, all that is written tiles the target with one such block.
\<close>

theorem chunks_repeat_the_pass_block:
  "(wipe_device w dw path p quick_format = Some fin \<longrightarrow>
      writes (trace fin) = concat (pass_chunks fin)
      \<and> passes_completed (result fin) \<le> get_pass_count p
      \<and> (\<forall>j<passes_completed (result fin). \<exists>blk.
            get_pattern_data (entropy w) p (block_size dw) j = Some blk
            \<and> length blk = block_size dw
            \<and> tiles (total_bytes (result fin)) blk (chunks_in_pass (Suc j) (trace fin))
            \<and> (Suc j < passes_completed (result fin) \<longrightarrow>
                  length (concat (chunks_in_pass (Suc j) (trace fin)))
                    = total_bytes (result fin))
            \<and> (random_pass p j \<longrightarrow> blk = token_bytes (entropy w) j (block_size dw))))
   \<and> (wipe_file w dw path p remove_file = Some ffin \<longrightarrow>
      writes (trace ffin) = concat (pass_chunks ffin)
      \<and> passes_completed (result ffin) \<le> get_pass_count p
      \<and> (\<forall>j<passes_completed (result ffin). \<exists>blk.
            get_pattern_data (entropy w) p (block_size dw) j = Some blk
            \<and> length blk = block_size dw
            \<and> tiles (total_bytes (result ffin)) blk (chunks_in_pass (Suc j) (trace ffin))
            \<and> (Suc j < passes_completed (result ffin) \<longrightarrow>
                  length (concat (chunks_in_pass (Suc j) (trace ffin)))
                    = total_bytes (result ffin))
            \<and> (random_pass p j \<longrightarrow> blk = token_bytes (entropy w) j (block_size dw))))
   \<and> ((p' = RANDOM \<or> p' = NIST_CLEAR)
        \<and> wipe_device w dw path p' quick_format = Some fin' \<longrightarrow>
      tiles (total_bytes (result fin')) (token_bytes (entropy w) 0 (block_size dw))
        (writes (trace fin')))
   \<and> ((p' = RANDOM \<or> p' = NIST_CLEAR)
        \<and> wipe_file w dw path p' remove_file = Some ffin' \<longrightarrow>
      tiles (total_bytes (result ffin')) (token_bytes (entropy w) 0 (block_size dw))
        (writes (trace ffin')))"
proof (intro conjI impI allI)
  assume run: "wipe_device w dw path p quick_format = Some fin"
  from wipe_device_tiles [OF run]
  show "writes (trace fin) = concat (pass_chunks fin)"
    and "passes_completed (result fin) \<le> get_pass_count p" by simp_all
next
  fix j
  assume run: "wipe_device w dw path p quick_format = Some fin"
    and j: "j < passes_completed (result fin)"
  from wipe_device_tiles [OF run]
  have "pass_pieces (get_pattern_data (entropy w) p (block_size dw))
          (total_bytes (result fin)) 0 (pass_chunks fin)" by simp
  from pass_pieces_of_run [OF this j]
  show "\<exists>blk. get_pattern_data (entropy w) p (block_size dw) j = Some blk
            \<and> length blk = block_size dw
            \<and> tiles (total_bytes (result fin)) blk (chunks_in_pass (Suc j) (trace fin))
            \<and> (Suc j < passes_completed (result fin) \<longrightarrow>
                  length (concat (chunks_in_pass (Suc j) (trace fin)))
                    = total_bytes (result fin))
            \<and> (random_pass p j \<longrightarrow> blk = token_bytes (entropy w) j (block_size dw))" .
next
  assume run: "wipe_file w dw path p remove_file = Some ffin"
  from wipe_file_tiles [OF run]
  show "writes (trace ffin) = concat (pass_chunks ffin)"
    and "passes_completed (result ffin) \<le> get_pass_count p" by simp_all
next
  fix j
  assume run: "wipe_file w dw path p remove_file = Some ffin"
    and j: "j < passes_completed (result ffin)"
  from wipe_file_tiles [OF run]
  have "pass_pieces (get_pattern_data (entropy w) p (block_size dw))
          (total_bytes (result ffin)) 0 (pass_chunks ffin)" by simp
  from pass_pieces_of_run [OF this j]
  show "\<exists>blk. get_pattern_data (entropy w) p (block_size dw) j = Some blk
            \<and> length blk = block_size dw
            \<and> tiles (total_bytes (result ffin)) blk (chunks_in_pass (Suc j) (trace ffin))
            \<and> (Suc j < passes_completed (result ffin) \<longrightarrow>
                  length (concat (chunks_in_pass (Suc j) (trace ffin)))
                    = total_bytes (result ffin))
            \<and> (random_pass p j \<longrightarrow> blk = token_bytes (entropy w) j (block_size dw))" .
next
  assume a: "(p' = RANDOM \<or> p' = NIST_CLEAR)
        \<and> wipe_device w dw path p' quick_format = Some fin'"
  then have run: "wipe_device w dw path p' quick_format = Some fin'" by simp
  from wipe_device_tiles [OF run] a
  show "tiles (total_bytes (result fin')) (token_bytes (entropy w) 0 (block_size dw))
          (writes (trace fin'))"
    by (intro single_random_pass_tiles [where p = p']) simp_all
next
  assume a: "(p' = RANDOM \<or> p' = NIST_CLEAR)
        \<and> wipe_file w dw path p' remove_file = Some ffin'"
  then have run: "wipe_file w dw path p' remove_file = Some ffin'" by simp
  from wipe_file_tiles [OF run] a
  show "tiles (total_bytes (result ffin')) (token_bytes (entropy w) 0 (block_size dw))
          (writes (trace ffin'))"
    by (intro single_random_pass_tiles [where p = p']) simp_all
qed

theorem chunks_repeat_the_pass_block_witness:
  "(\<exists>fin. wipe_device sample_world sample_wiper ''f'' NIST_PURGE False = Some fin
        \<and> pass_chunks fin
            = [[[0, 1], [0, 1], [0]], [[0, 0], [0, 0], [0]], [[2, 3], [2, 3], [2]]]
        \<and> writes (trace fin) = concat (pass_chunks fin)
        \<and> passes_completed (result fin) \<le> get_pass_count NIST_PURGE
        \<and> (\<forall>j<passes_completed (result fin). \<exists>blk.
              get_pattern_data (entropy sample_world) NIST_PURGE (block_size sample_wiper) j
                = Some blk
              \<and> length blk = block_size sample_wiper
              \<and> tiles (total_bytes (result fin)) blk (chunks_in_pass (Suc j) (trace fin))
              \<and> (Suc j < passes_completed (result fin) \<longrightarrow>
                    length (concat (chunks_in_pass (Suc j) (trace fin)))
                      = total_bytes (result fin))
              \<and> (random_pass NIST_PURGE j \<longrightarrow>
                    blk = token_bytes (entropy sample_world) j (block_size sample_wiper))))
   \<and> (\<exists>ffin. wipe_file sample_world sample_wiper ''f'' NIST_PURGE True = Some ffin
        \<and> pass_chunks ffin
            = [[[0, 1], [0, 1], [0]], [[0, 0], [0, 0], [0]], [[2, 3], [2, 3], [2]]]
        \<and> writes (trace ffin) = concat (pass_chunks ffin)
        \<and> passes_completed (result ffin) \<le> get_pass_count NIST_PURGE
        \<and> (\<forall>j<passes_completed (result ffin). \<exists>blk.
              get_pattern_data (entropy sample_world) NIST_PURGE (block_size sample_wiper) j
                = Some blk
              \<and> length blk = block_size sample_wiper
              \<and> tiles (total_bytes (result ffin)) blk (chunks_in_pass (Suc j) (trace ffin))
              \<and> (Suc j < passes_completed (result ffin) \<longrightarrow>
                    length (concat (chunks_in_pass (Suc j) (trace ffin)))
                      = total_bytes (result ffin))
              \<and> (random_pass NIST_PURGE j \<longrightarrow>
                    blk = token_bytes (entropy sample_world) j (block_size sample_wiper))))
   \<and> (\<exists>fin'. wipe_device sample_world sample_wiper ''f'' RANDOM False = Some fin'
        \<and> writes (trace fin') = [[0, 1], [0, 1], [0]]
        \<and> tiles (total_bytes (result fin'))
             (token_bytes (entropy sample_world) 0 (block_size sample_wiper))
             (writes (trace fin')))
   \<and> (\<exists>ffin'. wipe_file sample_world sample_wiper ''f'' RANDOM True = Some ffin'
        \<and> writes (trace ffin') = [[0, 1], [0, 1], [0]]
        \<and> tiles (total_bytes (result ffin'))
             (token_bytes (entropy sample_world) 0 (block_size sample_wiper))
             (writes (trace ffin')))"
proof -
  have "map_option pass_chunks (wipe_device sample_world sample_wiper ''f'' NIST_PURGE False)
          = Some [[[0, 1], [0, 1], [0]], [[0, 0], [0, 0], [0]], [[2, 3], [2, 3], [2]]]"
    by code_simp
  then obtain fin where
    a: "wipe_device sample_world sample_wiper ''f'' NIST_PURGE False = Some fin"
    and a': "pass_chunks fin
               = [[[0, 1], [0, 1], [0]], [[0, 0], [0, 0], [0]], [[2, 3], [2, 3], [2]]]"
    by auto
  have "map_option pass_chunks (wipe_file sample_world sample_wiper ''f'' NIST_PURGE True)
          = Some [[[0, 1], [0, 1], [0]], [[0, 0], [0, 0], [0]], [[2, 3], [2, 3], [2]]]"
    by code_simp
  then obtain ffin where
    b: "wipe_file sample_world sample_wiper ''f'' NIST_PURGE True = Some ffin"
    and b': "pass_chunks ffin
               = [[[0, 1], [0, 1], [0]], [[0, 0], [0, 0], [0]], [[2, 3], [2, 3], [2]]]"
    by auto
  have "map_option written (wipe_device sample_world sample_wiper ''f'' RANDOM False)
          = Some [[0, 1], [0, 1], [0]]"
    by code_simp
  then obtain fin' where
    c: "wipe_device sample_world sample_wiper ''f'' RANDOM False = Some fin'"
    and c': "writes (trace fin') = [[0, 1], [0, 1], [0]]" by (auto simp: written_def)
  have "map_option written (wipe_file sample_world sample_wiper ''f'' RANDOM True)
          = Some [[0, 1], [0, 1], [0]]"
    by code_simp
  then obtain ffin' where
    d: "wipe_file sample_world sample_wiper ''f'' RANDOM True = Some ffin'"
    and d': "writes (trace ffin') = [[0, 1], [0, 1], [0]]" by (auto simp: written_def)
  note inst = chunks_repeat_the_pass_block
         [where w = sample_world and dw = sample_wiper and path = "''f''" and p = NIST_PURGE
            and quick_format = False and remove_file = True and p' = RANDOM
            and fin = fin and ffin = ffin and fin' = fin' and ffin' = ffin']
  from inst a a' have 1: "\<exists>fin. wipe_device sample_world sample_wiper ''f'' NIST_PURGE False = Some fin
        \<and> pass_chunks fin
            = [[[0, 1], [0, 1], [0]], [[0, 0], [0, 0], [0]], [[2, 3], [2, 3], [2]]]
        \<and> writes (trace fin) = concat (pass_chunks fin)
        \<and> passes_completed (result fin) \<le> get_pass_count NIST_PURGE
        \<and> (\<forall>j<passes_completed (result fin). \<exists>blk.
              get_pattern_data (entropy sample_world) NIST_PURGE (block_size sample_wiper) j
                = Some blk
              \<and> length blk = block_size sample_wiper
              \<and> tiles (total_bytes (result fin)) blk (chunks_in_pass (Suc j) (trace fin))
              \<and> (Suc j < passes_completed (result fin) \<longrightarrow>
                    length (concat (chunks_in_pass (Suc j) (trace fin)))
                      = total_bytes (result fin))
              \<and> (random_pass NIST_PURGE j \<longrightarrow>
                    blk = token_bytes (entropy sample_world) j (block_size sample_wiper)))"
    by blast
  from inst b b' have 2: "\<exists>ffin. wipe_file sample_world sample_wiper ''f'' NIST_PURGE True = Some ffin
        \<and> pass_chunks ffin
            = [[[0, 1], [0, 1], [0]], [[0, 0], [0, 0], [0]], [[2, 3], [2, 3], [2]]]
        \<and> writes (trace ffin) = concat (pass_chunks ffin)
        \<and> passes_completed (result ffin) \<le> get_pass_count NIST_PURGE
        \<and> (\<forall>j<passes_completed (result ffin). \<exists>blk.
              get_pattern_data (entropy sample_world) NIST_PURGE (block_size sample_wiper) j
                = Some blk
              \<and> length blk = block_size sample_wiper
              \<and> tiles (total_bytes (result ffin)) blk (chunks_in_pass (Suc j) (trace ffin))
              \<and> (Suc j < passes_completed (result ffin) \<longrightarrow>
                    length (concat (chunks_in_pass (Suc j) (trace ffin)))
                      = total_bytes (result ffin))
              \<and> (random_pass NIST_PURGE j \<longrightarrow>
                    blk = token_bytes (entropy sample_world) j (block_size sample_wiper)))"
    by blast
  from inst c c' have 3: "\<exists>fin'. wipe_device sample_world sample_wiper ''f'' RANDOM False = Some fin'
        \<and> writes (trace fin') = [[0, 1], [0, 1], [0]]
        \<and> tiles (total_bytes (result fin'))
             (token_bytes (entropy sample_world) 0 (block_size sample_wiper))
             (writes (trace fin'))"
    by blast
  from inst d d' have 4: "\<exists>ffin'. wipe_file sample_world sample_wiper ''f'' RANDOM True = Some ffin'
        \<and> writes (trace ffin') = [[0, 1], [0, 1], [0]]
        \<and> tiles (total_bytes (result ffin'))
             (token_bytes (entropy sample_world) 0 (block_size sample_wiper))
             (writes (trace ffin'))"
    by blast
  from 1 2 3 4 show ?thesis by blast
qed

section \<open>Pass counts\<close>

lemma perform_wipe_total_passes:
  assumes "perform_wipe w dw p s = Some (success, s')"
  shows "total_passes (result s') = total_passes (result s)"
proof (cases "open_rw_error w")
  case (Some msg)
  with assms show ?thesis by (auto simp: perform_wipe_def)
next
  case None
  with assms obtain e s1 where pp: "perform_passes w dw p 0 0 s = Some (e, s1)"
    by (auto simp: perform_wipe_def split: option.splits)
  from perform_passes_fields [OF pp] have "total_passes (result s1) = total_passes (result s)"
    by (simp add: same_but_progress_def)
  then show ?thesis using pp None assms by (cases e) (auto simp: perform_wipe_def)
qed

text \<open>
  Claim C4. The declared pass count is the fixed table. The single-byte-fill and random
  generators never stop yielding. Every run of \<open>wipe_device\<close> that passes validation
  declares \<open>total_passes\<close> from the table, and a run that is neither cancelled nor hit by
  an I/O fault (block size positive) performs exactly that many passes: it ends with
  \<open>passes_completed = total_passes\<close> and has written the target size that many times.
\<close>

theorem declared_pass_count_is_performed:
  "get_pass_count ZERO_FILL = 1 \<and> get_pass_count ONE_FILL = 1 \<and> get_pass_count RANDOM = 1
   \<and> get_pass_count DOD_3_PASS = 3 \<and> get_pass_count DOD_7_PASS = 7
   \<and> get_pass_count GUTMANN = 35 \<and> get_pass_count NIST_CLEAR = 1
   \<and> get_pass_count NIST_PURGE = 3
   \<and> get_pattern_data ent ZERO_FILL B i \<noteq> None \<and> get_pattern_data ent ONE_FILL B i \<noteq> None
   \<and> get_pattern_data ent RANDOM B i \<noteq> None \<and> get_pattern_data ent NIST_CLEAR B i \<noteq> None
   \<and> (validate_device w \<longrightarrow> wipe_device w dw path p quick_format = Some s \<longrightarrow>
        total_passes (result s) = get_pass_count p)
   \<and> (validate_device w \<longrightarrow> open_rw_error w = None \<longrightarrow> cancel_from w = None \<longrightarrow>
      (\<forall>t. fault_at w t = No_fault) \<longrightarrow> 0 < block_size dw \<longrightarrow>
      (\<exists>s. wipe_device w dw path p quick_format = Some s
         \<and> total_passes (result s) = get_pass_count p
         \<and> passes_completed (result s) = get_pass_count p
         \<and> length (concat (writes (trace s))) = get_pass_count p * get_device_size w))"
proof -
  define s3 where "s3 = update_progress dw (assign (\<lambda>r. r\<lparr>status := IN_PROGRESS\<rparr>)
      (assign (\<lambda>r. r\<lparr>total_passes := get_pass_count p\<rparr>)
        (assign (\<lambda>r. r\<lparr>total_bytes := get_device_size w\<rparr>) (start w path p))))"
  have tp3: "total_passes (result s3) = get_pass_count p"
    and tb3: "total_bytes (result s3) = get_device_size w"
    and w3: "writes (trace s3) = []"
    by (simp_all add: s3_def)
  have declared: "total_passes (result s) = get_pass_count p"
    if v: "validate_device w" and run: "wipe_device w dw path p quick_format = Some s" for s
  proof -
    from run v obtain success s4 where pw: "perform_wipe w dw p s3 = Some (success, s4)"
      by (auto simp: wipe_device_def Let_def s3_def split: option.splits)
    from perform_wipe_total_passes [OF pw] tp3
    have "total_passes (result s4) = get_pass_count p" by simp
    moreover have "total_passes (result s) = total_passes (result s4)"
      using run v pw
      by (auto simp: wipe_device_def Let_def s3_def split: format_outcome.splits if_splits)
    ultimately show ?thesis by simp
  qed
  have performed: "\<exists>s. wipe_device w dw path p quick_format = Some s
         \<and> total_passes (result s) = get_pass_count p
         \<and> passes_completed (result s) = get_pass_count p
         \<and> length (concat (writes (trace s))) = get_pass_count p * get_device_size w"
    if v: "validate_device w" and op: "open_rw_error w = None" and nc: "cancel_from w = None"
      and nf: "\<forall>t. fault_at w t = No_fault" and B: "0 < block_size dw"
  proof -
    have "0 < total_passes (result s3)" using tp3 get_pass_count_pos [of p] by simp
    from perform_passes_completes [OF nc nf B this tp3, of 0]
    obtain s4 where pp: "perform_passes w dw p 0 0 s3 = Some (Returned True, s4)"
      and pc: "passes_completed (result s4) = total_passes (result s3)"
      and sb: "same_but_progress (result s3) (result s4)"
      and wl: "length (concat (writes (trace s4))) =
            length (concat (writes (trace s3)))
              + (total_passes (result s3) - 0) * total_bytes (result s3)" by blast
    have pw: "perform_wipe w dw p s3 = Some (True, s4)"
      using pp op by (simp add: perform_wipe_def)
    obtain s where run: "wipe_device w dw path p quick_format = Some s"
      using v pw by (simp add: wipe_device_def Let_def s3_def)
    have "passes_completed (result s) = passes_completed (result s4)"
      and "writes (trace s) = writes (trace s4)"
      using run v pw nc
      by (auto simp: wipe_device_def Let_def s3_def split: format_outcome.splits if_splits)
    with pc wl tp3 tb3 w3 declared [OF v run] run show ?thesis by auto
  qed
  show ?thesis using declared performed
    by (simp add: zero_fill_def one_fill_def random_fill_def nist_clear_def)
qed

theorem declared_pass_count_is_performed_witness:
  "validate_device sample_world \<and> open_rw_error sample_world = None
   \<and> cancel_from sample_world = None \<and> (\<forall>t. fault_at sample_world t = No_fault)
   \<and> 0 < block_size sample_wiper
   \<and> (\<exists>s. wipe_device sample_world sample_wiper ''f'' DOD_3_PASS False = Some s
         \<and> total_passes (result s) = 3 \<and> passes_completed (result s) = 3
         \<and> length (concat (writes (trace s))) = 3 * get_device_size sample_world)"
proof -
  have h: "validate_device sample_world" "open_rw_error sample_world = None"
    "cancel_from sample_world = None" "\<forall>t. fault_at sample_world t = No_fault"
    "0 < block_size sample_wiper"
    by (simp_all add: sample_world_def sample_wiper_def validate_device_def)
  from declared_pass_count_is_performed
         [where w = sample_world and dw = sample_wiper and path = "''f''" and p = DOD_3_PASS
            and quick_format = False] h
  show ?thesis by simp
qed

section \<open>The reported byte counter\<close>

text \<open>
  Claim C6. The claim holds for \<open>wipe_device\<close> (see
  \<open>wipe_device_bytes_wiped_monotone\<close> below) and fails for \<open>wipe_file\<close>, which
  reports the per-pass counter: on the 5-byte sample file with block size 2 and the
  three-pass scheme, the \<open>bytes_wiped\<close> values observers see fall back from 5 to 2 at
  the start of the second and of the third pass.
\<close>

theorem wipe_file_counter_restarts_each_pass:
  "map_option bytes_wiped_history (wipe_file sample_world sample_wiper ''f'' DOD_3_PASS False)
     = Some [0, 0, 0, 0, 0, 0, 2, 2, 4, 4, 5, 5, 5, 2, 2, 4, 4, 5, 5, 5, 2, 2, 4, 4, 5, 5, 5,
             5, 5]"
  by code_simp

theorem wipe_file_counter_restarts_each_pass_witness:
  "\<exists>s. wipe_file sample_world sample_wiper ''f'' DOD_3_PASS False = Some s
       \<and> \<not> sorted (bytes_wiped_history s)"
proof -
  from wipe_file_counter_restarts_each_pass
  obtain s where run: "wipe_file sample_world sample_wiper ''f'' DOD_3_PASS False = Some s"
    and h: "bytes_wiped_history s =
      [0, 0, 0, 0, 0, 0, 2, 2, 4, 4, 5, 5, 5, 2, 2, 4, 4, 5, 5, 5, 2, 2, 4, 4, 5, 5, 5, 5, 5]"
    by auto
  have "\<not> sorted (bytes_wiped_history s)" unfolding h by simp
  with run show ?thesis by blast
qed

text \<open>The sibling path: in \<open>wipe_device\<close> the reported \<open>bytes_wiped\<close> never decreases.\<close>

lemma wipe_device_bytes_wiped_monotone:
  assumes run: "wipe_device w dw path p quick_format = Some s"
  shows "sorted (bytes_wiped_history s)"
proof -
  let ?R = "\<lambda>r r'. bytes_wiped r \<le> bytes_wiped r'"
  have "chain ?R s"
  proof (cases "validate_device w")
    case False
    with run show ?thesis by (auto simp: wipe_device_def Let_def chain_def)
  next
    case True
    define s3 where "s3 = update_progress dw (assign (\<lambda>r. r\<lparr>status := IN_PROGRESS\<rparr>)
      (assign (\<lambda>r. r\<lparr>total_passes := get_pass_count p\<rparr>)
        (assign (\<lambda>r. r\<lparr>total_bytes := get_device_size w\<rparr>) (start w path p))))"
    have c3: "chain ?R s3" by (simp add: s3_def chain_def successively_append_iff)
    have z3: "bytes_wiped (result s3) \<le> 0" by (simp add: s3_def)
    from run True obtain success s4 where pw: "perform_wipe w dw p s3 = Some (success, s4)"
      by (auto simp: wipe_device_def Let_def s3_def split: option.splits)
    have c4: "chain ?R s4"
    proof (cases "open_rw_error w")
      case (Some msg)
      with pw c3 show ?thesis by (auto simp: perform_wipe_def chain_assign)
    next
      case None
      with pw obtain e s1 where pp: "perform_passes w dw p 0 0 s3 = Some (e, s1)"
        by (auto simp: perform_wipe_def split: option.splits)
      from perform_passes_chain [OF pp _ _ _ c3 z3] have "chain ?R s1" by simp
      then show ?thesis using pp None pw
        by (cases e) (auto simp: perform_wipe_def chain_assign)
    qed
    show ?thesis using run True pw c4
      by (auto simp: wipe_device_def Let_def s3_def chain_def successively_append_iff
            split: format_outcome.splits if_splits)
  qed
  then have "successively (\<le>) (bytes_wiped_history s)"
    by (simp add: chain_def bytes_wiped_history_def successively_map)
  then show ?thesis
    by (simp add: successively_conv_sorted_wrt [OF transp_on_le])
qed

section \<open>Issuing and verifying certificates\<close>

lemma hex_digit_value: "n < 16 \<Longrightarrow> digit_value (hex_digit n) = Some n"
  by (auto simp: digit_value_def hex_digit_def Let_def)

lemma hex_digit_not_space: "n < 16 \<Longrightarrow> \<not> is_space (hex_digit n)"
  by (auto simp: is_space_def hex_digit_def)

lemma byte_of_nibbles: "(of_nat (16 * (unat b div 16) + unat b mod 16) :: byte) = b"
  by simp

lemma fromhex_hex: "fromhex (hex bs) = Some bs"
proof (induction bs)
  case Nil
  show ?case by (simp add: hex_def)
next
  case (Cons b bs)
  have lt: "unat b div 16 < 16"
    using unsigned_less [of b, where ?'a = nat] by (simp add: less_mult_imp_div_less)
  have lt': "unat b mod 16 < 16" by simp
  have "hex (b # bs) = hex_digit (unat b div 16) # hex_digit (unat b mod 16) # hex bs"
    by (simp add: hex_def)
  then show ?case
    using Cons hex_digit_value [OF lt] hex_digit_value [OF lt'] hex_digit_not_space [OF lt]
    by (simp del: of_nat_add of_nat_mult add: byte_of_nibbles)
qed

lemma payload_ignores_signature [simp]:
  "payload (c\<lparr>certificate_hash := h, digital_signature := sg\<rparr>) = payload c"
  "payload (c\<lparr>digital_signature := sg\<rparr>) = payload c"
  "payload (c\<lparr>certificate_hash := h\<rparr>) = payload c"
  by (simp_all add: payload_def to_dict_def pop_def)

lemma verify_certificate_unfold:
  "verify_certificate env c =
     (certificate_hash c = content_hash env c
      \<and> (\<exists>bs. fromhex (digital_signature c) = Some bs
              \<and> verify env (encode (content_hash env c)) bs))"
  by (auto simp: verify_certificate_def Let_def content_hash_def payload_def
        split: option.splits)

lemma generate_certificate_issued:
  assumes "generate_certificate env gen r info = Inr c"
  shows "\<exists>sg. sign env (encode (content_hash env c)) = Inr sg
            \<and> certificate_hash c = content_hash env c
            \<and> digital_signature c = hex sg
            \<and> cert_status c = status_value (status r)
            \<and> cert_bytes_wiped c = int (bytes_wiped r)"
  using assms
  by (auto simp: generate_certificate_def Let_def content_hash_def payload_def to_dict_def
        pop_def split: sum.splits)

lemma generate_certificate_raises:
  "generate_certificate env gen r info = Inl e \<Longrightarrow> \<exists>m. sign env m = Inl e"
  by (auto simp: generate_certificate_def Let_def split: sum.splits)

text \<open>
  Claim C2. When signing succeeds and the signature scheme is correct (the public key
  accepts what the private key signed), \<open>generate_certificate\<close> returns a certificate and
  \<open>verify_certificate\<close> of the same generator accepts it, for every result (completed
  ones among them) and any device info.
\<close>

theorem issued_certificate_verifies:
  assumes "\<forall>m. \<exists>sg. sign env m = Inr sg \<and> verify env m sg"
  shows "\<exists>c. generate_certificate env gen r info = Inr c \<and> verify_certificate env c"
proof -
  obtain c where c: "generate_certificate env gen r info = Inr c"
  proof (cases "generate_certificate env gen r info")
    case (Inl e)
    from generate_certificate_raises [OF this] assms show ?thesis by (metis sum.distinct(1))
  next
    case (Inr c)
    then show ?thesis by (rule that)
  qed
  from generate_certificate_issued [OF c] obtain sg where
    "sign env (encode (content_hash env c)) = Inr sg"
    "certificate_hash c = content_hash env c" "digital_signature c = hex sg" by blast
  moreover from this assms have "verify env (encode (content_hash env c)) sg"
    by (metis sum.inject(2))
  ultimately have "verify_certificate env c"
    by (simp add: verify_certificate_unfold fromhex_hex)
  with c show ?thesis by blast
qed

lemma sample_issue:
  "generate_certificate sample_crypto sample_generator completed_result None
     = Inr sample_certificate"
  by code_simp

theorem issued_certificate_verifies_witness:
  "(\<forall>m. \<exists>sg. sign sample_crypto m = Inr sg \<and> verify sample_crypto m sg)
   \<and> status completed_result = COMPLETED \<and> end_time completed_result \<noteq> None
   \<and> (\<exists>c. generate_certificate sample_crypto sample_generator completed_result None = Inr c
          \<and> verify_certificate sample_crypto c)"
proof -
  have h: "\<forall>m. \<exists>sg. sign sample_crypto m = Inr sg \<and> verify sample_crypto m sg"
    by (simp add: sample_crypto_def)
  from issued_certificate_verifies [OF h, of sample_generator completed_result None] h
  show ?thesis by (simp add: completed_result_def)
qed

text \<open>
  Claim C9, amended. \<open>generate_certificate\<close> does not look at the status: it raises
  only what signing raises, and whenever signing succeeds it returns a certificate whose
  \<open>status\<close> field is the text of the result's status, terminal or not.
\<close>

theorem certificate_issued_for_any_status:
  "(generate_certificate env gen r info = Inl e \<longrightarrow> (\<exists>m. sign env m = Inl e))
   \<and> ((\<forall>m. \<exists>sg. sign env m = Inr sg) \<longrightarrow>
        (\<exists>c. generate_certificate env gen r info = Inr c
            \<and> cert_status c = status_value (status r)))"
proof (intro conjI impI)
  assume "generate_certificate env gen r info = Inl e"
  then show "\<exists>m. sign env m = Inl e" by (rule generate_certificate_raises)
next
  assume ok: "\<forall>m. \<exists>sg. sign env m = Inr sg"
  show "\<exists>c. generate_certificate env gen r info = Inr c
            \<and> cert_status c = status_value (status r)"
  proof (cases "generate_certificate env gen r info")
    case (Inl e)
    from generate_certificate_raises [OF this] ok show ?thesis by (metis sum.distinct(1))
  next
    case (Inr c)
    with generate_certificate_issued [OF Inr] show ?thesis by blast
  qed
qed

theorem certificate_issued_for_any_status_witness:
  "(\<forall>m. \<exists>sg. sign sample_crypto m = Inr sg)
   \<and> status pending_result = PENDING
   \<and> (\<exists>c. generate_certificate sample_crypto sample_generator pending_result None = Inr c
          \<and> cert_status c = ''pending'')"
proof -
  have h: "\<forall>m. \<exists>sg. sign sample_crypto m = Inr sg" by (simp add: sample_crypto_def)
  have p: "status pending_result = PENDING" by (simp add: pending_result_def)
  from certificate_issued_for_any_status
         [where env = sample_crypto and gen = sample_generator and r = pending_result
            and info = None] h p
  show ?thesis by simp
qed

text \<open>For a result that is still \<open>pending\<close> a certificate is returned, not an error.\<close>

theorem pending_result_gets_certificate:
  "issued_status (generate_certificate sample_crypto sample_generator pending_result None)
     = Inr ''pending''"
  by code_simp

section \<open>Tampering with a certificate\<close>

lemma opt_string_inject [simp]: "(opt_string v = opt_string v') = (v = v')"
  by (auto simp: opt_string_def split: option.splits)

lemma payload_changes:
  "alters u c \<Longrightarrow> \<not> on_hash u \<Longrightarrow> \<not> on_signature u \<Longrightarrow>
     payload (apply_change u c) \<noteq> payload c"
  by (cases u) (simp_all add: payload_def to_dict_def pop_def)

lemma payload_unchanged:
  "on_hash u \<or> on_signature u \<Longrightarrow> payload (apply_change u c) = payload c"
  by (cases u) simp_all

lemma hash_field_unchanged:
  "\<not> on_hash u \<Longrightarrow> certificate_hash (apply_change u c) = certificate_hash c"
  by (cases u) simp_all

lemma fromhex_trailing_space:
  "fromhex s = Some bs \<Longrightarrow> fromhex (s @ '' '') = Some bs"
proof (induction s arbitrary: bs rule: fromhex.induct)
  case 1
  then show ?case by (simp add: is_space_def)
next
  case (2 c)
  then show ?case by (auto simp: is_space_def split: if_splits)
next
  case (3 c d ds)
  then show ?case by (auto split: if_splits option.splits)
qed

text \<open>Re-spelling the hexadecimal text of the signature leaves a valid certificate
  valid.\<close>

lemma respelled_signature_verifies:
  "verify_certificate env c \<Longrightarrow>
     verify_certificate env (c\<lparr>digital_signature := digital_signature c @ '' ''\<rparr>)"
  by (auto simp: verify_certificate_unfold content_hash_def dest: fromhex_trailing_space)

text \<open>
  Claim C3, amended. Take a certificate issued by \<open>generate_certificate\<close> and change one
  field to a different value. If the field is \<open>certificate_hash\<close>, verification fails. If
  it is any field other than \<open>certificate_hash\<close> and \<open>digital_signature\<close>, the canonical
  content changes, and verification fails unless serializer and hash give the changed
  content the digest of the original. If it is \<open>digital_signature\<close>, verification
  succeeds exactly when \<open>bytes.fromhex\<close> decodes the new text to bytes the public key
  accepts as a signature of the stored hash.
\<close>

theorem tampering_is_detected:
  assumes "generate_certificate env gen r info = Inr c" and "alters u c"
  shows "(on_hash u \<longrightarrow> \<not> verify_certificate env (apply_change u c))
       \<and> (\<not> on_hash u \<longrightarrow> \<not> on_signature u \<longrightarrow>
            payload (apply_change u c) \<noteq> payload c
          \<and> ((content_hash env (apply_change u c) = content_hash env c \<longrightarrow>
                 payload (apply_change u c) = payload c) \<longrightarrow>
               \<not> verify_certificate env (apply_change u c)))
       \<and> (on_signature u \<longrightarrow>
            verify_certificate env (apply_change u c) =
              (\<exists>bs. fromhex (digital_signature (apply_change u c)) = Some bs
                    \<and> verify env (encode (certificate_hash c)) bs))"
proof -
  from generate_certificate_issued [OF assms(1)]
  have h: "certificate_hash c = content_hash env c" by blast
  have 1: "\<not> verify_certificate env (apply_change u c)" if "on_hash u"
    using that assms(2) h by (cases u) (simp_all add: verify_certificate_unfold content_hash_def)
  have 2: "payload (apply_change u c) \<noteq> payload c
          \<and> ((content_hash env (apply_change u c) = content_hash env c \<longrightarrow>
                 payload (apply_change u c) = payload c) \<longrightarrow>
               \<not> verify_certificate env (apply_change u c))"
    if "\<not> on_hash u" "\<not> on_signature u"
    using payload_changes [OF assms(2) that] hash_field_unchanged [OF that(1), of c] h
    by (auto simp: verify_certificate_unfold)
  have 3: "verify_certificate env (apply_change u c) =
              (\<exists>bs. fromhex (digital_signature (apply_change u c)) = Some bs
                    \<and> verify env (encode (certificate_hash c)) bs)" if "on_signature u"
    using that h by (cases u) (simp_all add: verify_certificate_unfold content_hash_def)
  from 1 2 3 show ?thesis by blast
qed

theorem tampering_is_detected_witness:
  "generate_certificate sample_crypto sample_generator completed_result None
     = Inr sample_certificate
   \<and> alters (Set_certificate_hash ''00'') sample_certificate
   \<and> \<not> verify_certificate sample_crypto
         (apply_change (Set_certificate_hash ''00'') sample_certificate)
   \<and> alters (Set_bytes_wiped 4) sample_certificate
   \<and> content_hash sample_crypto (apply_change (Set_bytes_wiped 4) sample_certificate)
        \<noteq> content_hash sample_crypto sample_certificate
   \<and> \<not> verify_certificate sample_crypto (apply_change (Set_bytes_wiped 4) sample_certificate)
   \<and> alters (Set_digital_signature ''3635'') sample_certificate
   \<and> \<not> verify_certificate sample_crypto
         (apply_change (Set_digital_signature ''3635'') sample_certificate)"
proof -
  note iss = sample_issue
  have a1: "alters (Set_certificate_hash ''00'') sample_certificate"
    and a2: "alters (Set_bytes_wiped 4) sample_certificate"
    and a3: "alters (Set_digital_signature ''3635'') sample_certificate"
    by (simp_all add: sample_certificate_def)
  have ne: "content_hash sample_crypto (apply_change (Set_bytes_wiped 4) sample_certificate)
        \<noteq> content_hash sample_crypto sample_certificate"
    by code_simp
  have sg: "\<not> (\<exists>bs. fromhex (digital_signature
              (apply_change (Set_digital_signature ''3635'') sample_certificate)) = Some bs
            \<and> verify sample_crypto (encode (certificate_hash sample_certificate)) bs)"
    by (simp add: digit_value_def is_space_def sample_crypto_def sample_certificate_def
          encode_def)
  from tampering_is_detected [OF iss a1] tampering_is_detected [OF iss a2]
       tampering_is_detected [OF iss a3] iss a1 a2 a3 ne sg
  show ?thesis by simp
qed

text \<open>The issued sample certificate with a blank appended to the text of its signature
  is a different certificate, and it verifies.\<close>

theorem respelled_signature_is_accepted:
  "generate_certificate sample_crypto sample_generator completed_result None
     = Inr sample_certificate
   \<and> alters (Set_digital_signature ''3634 '') sample_certificate
   \<and> verify_certificate sample_crypto
        (apply_change (Set_digital_signature ''3634 '') sample_certificate)"
  by code_simp

end
